theory Spec2Isabelle
  imports Main "HOL-Library.List_Lexorder" "HOL-Library.Char_ord"
begin

section \<open>Strings\<close>

text \<open>
  A Python \<open>str\<close> is modelled as an Isabelle \<open>string\<close>; each \<open>char\<close> stands for the
  code point of the same number, so the model covers the strings over U+0000 .. U+00FF.
  On these code points the character classes, \<open>str.lower\<close>, \<open>str.strip\<close> and
  \<open>str.isdigit\<close> below are the ones of Python.
\<close>

subsection \<open>The regular expressions \<open>HASHTAG_RE\<close> and \<open>MENTION_RE\<close>\<close>

text \<open>
  \<^verbatim>\<open>HASHTAG_RE = re.compile(r"(?:^|[^0-9A-Z_])#([A-Z0-9_]+)", re.IGNORECASE)\<close>
  \<^verbatim>\<open>MENTION_RE = re.compile(r"(?:^|[^0-9A-Z_])@([A-Z0-9_]+)", re.IGNORECASE)\<close>

  \<open>is_word\<close> is the class \<open>[0-9A-Z_]\<close> under \<open>IGNORECASE\<close>. \<open>tag_body a\<close> matches the
  anchor character followed by the greedy group \<open>([A-Z0-9_]+)\<close> and returns the group and
  the text after the match. \<open>match_here\<close> tries the pattern at the current position: first
  the alternative \<open>^\<close> (only at the start of the text), then the alternative that consumes
  one character outside the class. \<open>finditer\<close> is the scan of \<open>re.finditer\<close>: after a match
  the search goes on at the end of the match, otherwise one character further.
\<close>

definition is_word :: "char \<Rightarrow> bool" where
  "is_word c = (let n = (of_char c :: nat) in
     (48 \<le> n \<and> n \<le> 57) \<or> (65 \<le> n \<and> n \<le> 90) \<or> n = 95 \<or> (97 \<le> n \<and> n \<le> 122))"

definition tag_body :: "char \<Rightarrow> string \<Rightarrow> (string \<times> string) option" where
  "tag_body a s = (case s of
       [] \<Rightarrow> None
     | c # s' \<Rightarrow> if c = a \<and> takeWhile is_word s' \<noteq> []
                then Some (takeWhile is_word s', dropWhile is_word s') else None)"

definition match_here :: "char \<Rightarrow> bool \<Rightarrow> string \<Rightarrow> (string \<times> string) option" where
  "match_here a at_start s =
     (case (if at_start then tag_body a s else None) of
        Some m \<Rightarrow> Some m
      | None \<Rightarrow> (case s of [] \<Rightarrow> None
                 | c # s' \<Rightarrow> if is_word c then None else tag_body a s'))"

lemma tag_body_shorter: "tag_body a s = Some (g, r) \<Longrightarrow> length r < length s"
  by (auto simp: tag_body_def split: list.splits if_splits intro: le_imp_less_Suc length_dropWhile_le)

lemma match_here_shorter: "match_here a b s = Some (g, r) \<Longrightarrow> length r < length s"
  by (auto simp: match_here_def split: list.splits if_splits option.splits dest!: tag_body_shorter)

function finditer :: "char \<Rightarrow> bool \<Rightarrow> string \<Rightarrow> string list" where
  "finditer a at_start s =
     (case match_here a at_start s of
        Some (g, r) \<Rightarrow> g # finditer a False r
      | None \<Rightarrow> (case s of [] \<Rightarrow> [] | c # s' \<Rightarrow> finditer a False s'))"
  by pat_completeness auto
termination
  by (relation "measure (\<lambda>(a, b, s). length s)") (auto dest: match_here_shorter)

declare finditer.simps [simp del]

subsection \<open>\<open>str.lower\<close>, \<open>sorted(set(...))\<close> and the two extractors\<close>

text \<open>
  \<open>lower\<close> is \<open>str.lower\<close>: on the code points below 256 it moves \<open>A..Z\<close> and the
  letters U+00C0 .. U+00DE (but not the multiplication sign U+00D7) up by 32.
  \<open>sorted_set\<close> is \<open>sorted({...})\<close>: the duplicates are dropped and the strings are
  sorted by code point. \<open>or_empty t\<close> is \<open>text or ""\<close> for an optional string.
\<close>

definition lower_char :: "char \<Rightarrow> char" where
  "lower_char c = (let n = (of_char c :: nat) in
     if (65 \<le> n \<and> n \<le> 90) \<or> (192 \<le> n \<and> n \<le> 222 \<and> n \<noteq> 215)
     then char_of (n + 32) else c)"

definition lower :: "string \<Rightarrow> string" where
  "lower s = map lower_char s"

definition sorted_set :: "string list \<Rightarrow> string list" where
  "sorted_set xs = sort (remdups xs)"

definition or_empty :: "string option \<Rightarrow> string" where
  "or_empty t = (case t of None \<Rightarrow> [] | Some s \<Rightarrow> s)"

definition extract_hashtags :: "string option \<Rightarrow> string list" where
  "extract_hashtags t = sorted_set (map lower (finditer (CHR ''#'') True (or_empty t)))"



definition extract_mentions :: "string option \<Rightarrow> string list" where
  "extract_mentions t = sorted_set (map lower (finditer (CHR ''@'') True (or_empty t)))"

subsection \<open>The lexical rule, as the specification words it\<close>

text \<open>
  \<open>is_tag_at a s p\<close>: the anchor \<open>a\<close> stands at position \<open>p\<close> of \<open>s\<close>, it is preceded by the
  start of the string or by a character that is not a word character, and it is followed
  by at least one word character. \<open>tag_text s p\<close> is the run of word characters after
  position \<open>p\<close>. \<open>tags_from a b s\<close> collects the tags of \<open>s\<close>; with \<open>b = False\<close> a tag at
  position 0 does not count.
\<close>

definition is_tag_at :: "char \<Rightarrow> string \<Rightarrow> nat \<Rightarrow> bool" where
  "is_tag_at a s p = (p < length s \<and> s ! p = a \<and> (p = 0 \<or> \<not> is_word (s ! (p - 1)))
       \<and> Suc p < length s \<and> is_word (s ! Suc p))"

definition tag_text :: "string \<Rightarrow> nat \<Rightarrow> string" where
  "tag_text s p = takeWhile is_word (drop (Suc p) s)"

definition tags_from :: "char \<Rightarrow> bool \<Rightarrow> string \<Rightarrow> string set" where
  "tags_from a b s = {tag_text s p | p. is_tag_at a s p \<and> (0 < p \<or> b)}"

subsection \<open>\<open>str.strip\<close>, \<open>str.isdigit\<close>, \<open>int\<close> of a digit string, \<open>str\<close> of an integer\<close>

text \<open>
  \<open>is_space\<close> holds for the code points below 256 on which \<open>str.isspace\<close> holds:
  9 .. 13, 28 .. 32, U+0085 and U+00A0. \<open>isdigit\<close> is \<open>str.isdigit\<close>: the string is not
  empty and every character is a digit; besides \<open>0..9\<close> the superscripts U+00B2, U+00B3
  and U+00B9 are digits for \<open>str.isdigit\<close>. \<open>int_of_digits\<close> is \<open>int(s)\<close> on a string
  of digits: the decimal value; \<open>ValueError\<close> when the string is empty, when a
  superscript digit occurs, and when the string has more than \<open>max_str_digits\<close> digits,
  the limit of the interpreter for this conversion (4300 unless it is configured
  otherwise; leading zeros count). \<open>str_of_int\<close> is \<open>str(n)\<close>.
\<close>

datatype error =
    HTTPError int
  | ConnectionError
  | JSONDecodeError
  | RuntimeError
  | ValueError
  | AttributeError
  | OutOfRange

definition is_space :: "char \<Rightarrow> bool" where
  "is_space c = (let n = (of_char c :: nat) in
     (9 \<le> n \<and> n \<le> 13) \<or> (28 \<le> n \<and> n \<le> 32) \<or> n = 133 \<or> n = 160)"

definition strip :: "string \<Rightarrow> string" where
  "strip s = rev (dropWhile is_space (rev (dropWhile is_space s)))"

definition is_decimal :: "char \<Rightarrow> bool" where
  "is_decimal c = (let n = (of_char c :: nat) in 48 \<le> n \<and> n \<le> 57)"

definition is_digit :: "char \<Rightarrow> bool" where
  "is_digit c = (let n = (of_char c :: nat) in
     (48 \<le> n \<and> n \<le> 57) \<or> n = 178 \<or> n = 179 \<or> n = 185)"

definition isdigit :: "string \<Rightarrow> bool" where
  "isdigit s = (s \<noteq> [] \<and> list_all is_digit s)"

definition decimal_value :: "string \<Rightarrow> int" where
  "decimal_value s = foldl (\<lambda>acc c. 10 * acc + (of_char c - 48)) 0 s"

definition max_str_digits :: nat where
  "max_str_digits = 4300"

definition int_of_digits :: "string \<Rightarrow> error + int" where
  "int_of_digits s =
     (if s \<noteq> [] \<and> list_all is_decimal s \<and> length s \<le> max_str_digits
      then Inr (decimal_value s) else Inl ValueError)"

definition digit_char :: "nat \<Rightarrow> char" where
  "digit_char d = char_of (48 + d)"

fun str_of_nat :: "nat \<Rightarrow> string" where
  "str_of_nat n = (if n < 10 then [digit_char n] else str_of_nat (n div 10) @ [digit_char (n mod 10)])"

declare str_of_nat.simps [simp del]

definition str_of_int :: "int \<Rightarrow> string" where
  "str_of_int i = (if i < 0 then CHR ''-'' # str_of_nat (nat (- i)) else str_of_nat (nat i))"

subsection \<open>\<open>iso_utc\<close>\<close>

text \<open>
  \<^verbatim>\<open>datetime.fromtimestamp(ts_utc, tz=timezone.utc).isoformat().replace("+00:00", "Z")\<close>

  The timestamp is modelled as a whole number of seconds (Reddit's \<open>created_utc\<close> is a
  whole number written as a float), so the result has no fraction of a second.
  \<open>civil_from_days\<close> is the proleptic Gregorian date of a day number counted from
  1970-01-01. Outside the years 1 .. 9999 \<open>datetime.fromtimestamp\<close> raises (a
  \<open>ValueError\<close>, \<open>OverflowError\<close> or \<open>OSError\<close>, by the size of the number): \<open>OutOfRange\<close>.
\<close>

definition zero_pad :: "nat \<Rightarrow> int \<Rightarrow> string" where
  "zero_pad w i = (let s = str_of_int i in replicate (w - length s) (CHR ''0'') @ s)"

definition civil_from_days :: "int \<Rightarrow> int \<times> int \<times> int" where
  "civil_from_days z0 =
     (let z = z0 + 719468;
          era = z div 146097;
          doe = z - era * 146097;
          yoe = (doe - doe div 1460 + doe div 36524 - doe div 146096) div 365;
          doy = doe - (365 * yoe + yoe div 4 - yoe div 100);
          mp = (5 * doy + 2) div 153;
          d = doy - (153 * mp + 2) div 5 + 1;
          m = (if mp < 10 then mp + 3 else mp - 9);
          y = yoe + era * 400 + (if m \<le> 2 then 1 else 0)
      in (y, m, d))"

definition iso_utc :: "int \<Rightarrow> error + string" where
  "iso_utc ts =
     (if ts < - 62135596800 \<or> 253402300799 < ts then Inl OutOfRange
      else
        (let (y, m, d) = civil_from_days (ts div 86400);
             secs = ts mod 86400
         in Inr (zero_pad 4 y @ ''-'' @ zero_pad 2 m @ ''-'' @ zero_pad 2 d @ ''T''
                 @ zero_pad 2 (secs div 3600) @ '':'' @ zero_pad 2 (secs mod 3600 div 60)
                 @ '':'' @ zero_pad 2 (secs mod 60) @ ''Z'')))"

section \<open>Raw items and normalized records\<close>

text \<open>
  A member of a decoded JSON object, as \<open>dict.get\<close> sees it: the key is absent, its
  value is \<open>null\<close>, or it has a value. \<open>get\<close> is \<open>d.get(k)\<close> and \<open>get_or\<close> is
  \<open>d.get(k, default)\<close>; the three \<open>or\<close> functions are Python's \<open>x or y\<close> on an optional
  string or integer (\<open>None\<close>, \<open>""\<close> and \<open>0\<close> are false).
\<close>

datatype 'a field = Absent | Null | Val 'a

definition get :: "'a field \<Rightarrow> 'a option" where
  "get f = (case f of Absent \<Rightarrow> None | Null \<Rightarrow> None | Val v \<Rightarrow> Some v)"

definition get_or :: "'a field \<Rightarrow> 'a \<Rightarrow> 'a option" where
  "get_or f d = (case f of Absent \<Rightarrow> Some d | Null \<Rightarrow> None | Val v \<Rightarrow> Some v)"

definition truthy :: "string option \<Rightarrow> bool" where
  "truthy x = (case x of None \<Rightarrow> False | Some s \<Rightarrow> s \<noteq> [])"

definition opt_or :: "string option \<Rightarrow> string option \<Rightarrow> string option" where
  "opt_or x y = (if truthy x then x else y)"

definition str_or :: "string option \<Rightarrow> string \<Rightarrow> string" where
  "str_or x d = (case x of None \<Rightarrow> d | Some s \<Rightarrow> if s \<noteq> [] then s else d)"

definition int_or :: "int option \<Rightarrow> int \<Rightarrow> int" where
  "int_or x d = (case x of None \<Rightarrow> d | Some n \<Rightarrow> if n \<noteq> 0 then n else d)"

text \<open>
  The raw post, \<open>post: Dict[str, Any]\<close>, with the members \<open>to_schema\<close> reads. A member
  that is present has the type Reddit gives it: a string, or a whole number for \<open>score\<close>,
  \<open>num_comments\<close> and \<open>created_utc\<close>. \<open>empty_post\<close> is the dictionary \<open>{}\<close>.
\<close>

record post =
  p_name :: "string field"
  p_id :: "string field"
  p_title :: "string field"
  p_selftext :: "string field"
  p_score :: "int field"
  p_num_comments :: "int field"
  p_created_utc :: "int field"
  p_subreddit :: "string field"
  p_permalink :: "string field"
  p_url :: "string field"

definition empty_post :: post where
  "empty_post = \<lparr>p_name = Absent, p_id = Absent, p_title = Absent, p_selftext = Absent,
     p_score = Absent, p_num_comments = Absent, p_created_utc = Absent,
     p_subreddit = Absent, p_permalink = Absent, p_url = Absent\<rparr>"

text \<open>
  The normalized record: the dictionary \<open>to_schema\<close> returns, with the two keys the main
  loop adds later (\<open>topic_tag\<close>, \<open>engagement\<close>; \<open>None\<close> while the key is not set). The key
  \<open>text\<close> is the field \<open>text'\<close>. \<open>location\<close> is always \<open>None\<close>.
\<close>

record row =
  post_id :: "string option"
  platform :: string
  text' :: string
  hashtags :: "string list"
  mentions :: "string list"
  created_at :: string
  likes :: int
  comments :: int
  shares :: int
  language :: string
  location :: "string option"
  subreddit :: "string option"
  permalink :: string
  url :: "string option"
  topic_tag :: "string option"
  engagement :: "int option"

subsection \<open>\<open>to_schema\<close>\<close>

definition to_schema :: "post \<Rightarrow> error + row" where
  "to_schema p =
     (let pid = opt_or (get (p_name p)) (get (p_id p));
          title = str_or (get (p_title p)) [];
          body = str_or (get (p_selftext p)) [];
          txt = (if body \<noteq> [] then strip (title @ [CHR 0x0A, CHR 0x0A] @ body) else strip title);
          n_likes = int_or (get_or (p_score p) 0) 0;
          n_comments = int_or (get_or (p_num_comments p) 0) 0
      in case iso_utc (int_or (get_or (p_created_utc p) 0) 0) of
           Inl e \<Rightarrow> Inl e
         | Inr created \<Rightarrow>
             Inr \<lparr>post_id = pid,
                  platform = ''reddit'',
                  text' = txt,
                  hashtags = extract_hashtags (Some txt),
                  mentions = extract_mentions (Some txt),
                  created_at = created,
                  likes = n_likes,
                  comments = n_comments,
                  shares = 0,
                  language = ''en'',
                  location = None,
                  subreddit = get (p_subreddit p),
                  permalink = ''https://www.reddit.com'' @ str_or (get (p_permalink p)) [],
                  url = get (p_url p),
                  topic_tag = None,
                  engagement = None\<rparr>)"

section \<open>The HTTP layer: \<open>fetch_json\<close>\<close>

text \<open>
  The response of \<open>requests.get\<close>, as far as \<open>fetch_json\<close> reads it: the status code,
  the header \<open>r.headers.get("retry-after")\<close>, and the result of \<open>r.json()\<close> (\<open>None\<close> when
  the body does not decode and \<open>r.json()\<close> raises). The JSON envelope of a search page
  is \<open>{"data": {"children": [{"data": post}, ...], "after": cursor}}\<close>.
\<close>

record child =
  child_data :: "post field"

record listing =
  children :: "child list field"
  after :: "string field"

record envelope =
  data :: "listing field"

record response =
  status_code :: int
  retry_after :: "string option"
  json_body :: "envelope option"

text \<open>
  The request parameters that vary: the query \<open>params["q"]\<close> and the cursor \<open>params["after"]\<close>
  (\<open>None\<close> while the key is not set). The transport gives the outcome of the \<open>n\<close>-th
  \<open>requests.get\<close> of the run: a response, or the exception \<open>requests.get\<close> raises.

  The world records what the run does, in order: every \<open>requests.get\<close>, every
  \<open>time.sleep\<close> of \<open>fetch_json\<close> (\<open>Backoff\<close>, in whole seconds), every envelope that
  \<open>fetch_json\<close> returns to \<open>search_reddit\<close> (\<open>Returned\<close>), and every
  \<open>time.sleep(sleep_s)\<close> of \<open>search_reddit\<close> (\<open>Pause\<close>; the type \<open>'d\<close> is the type of
  \<open>sleep_s\<close>, which is only passed through). The \<open>print\<close> calls are left out.
\<close>

record params =
  param_q :: string
  param_after :: "string option"

type_synonym transport = "nat \<Rightarrow> params \<Rightarrow> error + response"

datatype 'd event =
    HttpGet params
  | Backoff int
  | Returned envelope
  | Pause 'd

record 'd world =
  requests :: nat
  trace :: "'d event list"

definition emit :: "'d event \<Rightarrow> 'd world \<Rightarrow> 'd world" where
  "emit e w = w\<lparr>trace := trace w @ [e]\<rparr>"

definition http_get :: "transport \<Rightarrow> params \<Rightarrow> 'd world \<Rightarrow> (error + response) \<times> 'd world" where
  "http_get tr ps w = (tr (requests w) ps, emit (HttpGet ps) (w\<lparr>requests := Suc (requests w)\<rparr>))"

text \<open>
  \<open>raise_for_status\<close> of the \<open>requests\<close> library raises \<open>HTTPError\<close> for a status code
  from 400 to 599 and returns for every other one.
\<close>

definition raise_for_status :: "response \<Rightarrow> error + unit" where
  "raise_for_status r =
     (if 400 \<le> status_code r \<and> status_code r < 600 then Inl (HTTPError (status_code r)) else Inr ())"

text \<open>
  \<^verbatim>\<open>sleep_for = int(retry_after) if retry_after and retry_after.isdigit() else (2 ** attempt)\<close>
  \<^verbatim>\<open>sleep_for = min(max(sleep_for, 2), 60)\<close>
\<close>

definition rate_limit_sleep :: "response \<Rightarrow> int \<Rightarrow> error + int" where
  "rate_limit_sleep r attempt =
     (case (if truthy (retry_after r) \<and> isdigit (or_empty (retry_after r))
            then int_of_digits (or_empty (retry_after r))
            else Inr (2 ^ nat attempt)) of
        Inl e \<Rightarrow> Inl e
      | Inr sleep_for \<Rightarrow> Inr (min (max sleep_for 2) 60))"

text \<open>\<open>py_range n\<close> is \<open>range(n)\<close>; it is empty when \<open>n \<le> 0\<close>.\<close>

definition py_range :: "int \<Rightarrow> int list" where
  "py_range n = [0..n - 1]"

text \<open>
  The body of \<open>for attempt in range(max_retries)\<close>, over the attempts that are left;
  when they run out the loop ends and \<open>RuntimeError\<close> is raised. The URL, the user
  agent and the timeout do not change during a call; the transport stands for them.
  \<open>2 ** attempt\<close> is \<open>2 ^ nat attempt\<close>, the attempts of \<open>range\<close> being non-negative.
\<close>

fun fetch_loop :: "transport \<Rightarrow> params \<Rightarrow> int \<Rightarrow> int list \<Rightarrow> 'd world \<Rightarrow> (error + envelope) \<times> 'd world" where
  "fetch_loop tr ps max_retries [] w = (Inl RuntimeError, w)"
| "fetch_loop tr ps max_retries (attempt # rest) w =
     (case http_get tr ps w of
        (Inl e, w1) \<Rightarrow> (Inl e, w1)
      | (Inr r, w1) \<Rightarrow>
          if status_code r = 429 \<or> status_code r = 503 then
            (case rate_limit_sleep r attempt of
               Inl e \<Rightarrow> (Inl e, w1)
             | Inr sleep_for \<Rightarrow> fetch_loop tr ps max_retries rest (emit (Backoff sleep_for) w1))
          else if status_code r = 403 \<and> attempt < max_retries - 1 then
            fetch_loop tr ps max_retries rest (emit (Backoff (min (2 ^ nat attempt) 30)) w1)
          else
            (case raise_for_status r of
               Inl e \<Rightarrow> (Inl e, w1)
             | Inr u \<Rightarrow> (case json_body r of None \<Rightarrow> (Inl JSONDecodeError, w1) | Some j \<Rightarrow> (Inr j, w1))))"

definition fetch_json :: "transport \<Rightarrow> params \<Rightarrow> int \<Rightarrow> 'd world \<Rightarrow> (error + envelope) \<times> 'd world" where
  "fetch_json tr ps max_retries w = fetch_loop tr ps max_retries (py_range max_retries) w"

section \<open>Pagination: \<open>search_reddit\<close>\<close>

text \<open>
  \<open>listing_of\<close> is \<open>data.get("data", {})\<close> followed by a \<open>.get\<close>: a \<open>null\<close> under \<open>"data"\<close>
  makes the following \<open>.get\<close> raise \<open>AttributeError\<close>. \<open>child_post\<close> is
  \<open>child.get("data", {})\<close> as \<open>to_schema\<close> receives it; \<open>to_schema(None)\<close> raises
  \<open>AttributeError\<close> at its first \<open>post.get\<close>.
\<close>

definition listing_of :: "envelope \<Rightarrow> error + listing" where
  "listing_of env = (case data env of
       Absent \<Rightarrow> Inr \<lparr>children = Absent, after = Absent\<rparr>
     | Null \<Rightarrow> Inl AttributeError
     | Val l \<Rightarrow> Inr l)"

definition child_post :: "child \<Rightarrow> error + post" where
  "child_post c = (case child_data c of
       Absent \<Rightarrow> Inr empty_post
     | Null \<Rightarrow> Inl AttributeError
     | Val p \<Rightarrow> Inr p)"

text \<open>
  \<^verbatim>\<open>for child in children:\<close>
  \<^verbatim>\<open>    post = child.get("data", {})\<close>
  \<^verbatim>\<open>    all_rows.append(to_schema(post))\<close>
  \<^verbatim>\<open>    if len(all_rows) >= limit_total: break\<close>
\<close>

fun append_children :: "child list \<Rightarrow> int \<Rightarrow> row list \<Rightarrow> error + row list" where
  "append_children [] limit_total all_rows = Inr all_rows"
| "append_children (c # cs) limit_total all_rows =
     (case child_post c of
        Inl e \<Rightarrow> Inl e
      | Inr p \<Rightarrow>
          (case to_schema p of
             Inl e \<Rightarrow> Inl e
           | Inr r \<Rightarrow>
               if limit_total \<le> int (length (all_rows @ [r])) then Inr (all_rows @ [r])
               else append_children cs limit_total (all_rows @ [r])))"

text \<open>
  One run of the body of \<open>while len(all_rows) < limit_total\<close>. It ends the loop (\<open>Stop\<close>:
  an exception, or a \<open>break\<close> with the rows to return) or goes back to the loop test
  (\<open>Again\<close>, with the rows and the cursor). \<open>after\<close> is false only before the first page,
  when \<open>params\<close> has no key \<open>"after"\<close>; later \<open>params["after"]\<close> is the cursor.
  \<open>fetch_json\<close> is called with its default \<open>max_retries = 6\<close>. The parameters
  \<open>subreddit\<close>, \<open>sort\<close> and \<open>t\<close> only choose the URL and constant request parameters,
  which the transport stands for.
\<close>

datatype iteration = Stop "error + row list" | Again "row list" "string option"

definition page_iteration ::
  "transport \<Rightarrow> string \<Rightarrow> int \<Rightarrow> 'd \<Rightarrow> row list \<Rightarrow> string option \<Rightarrow> 'd world \<Rightarrow> iteration \<times> 'd world" where
  "page_iteration tr query limit_total sleep_s all_rows aft w =
     (case fetch_json tr \<lparr>param_q = query, param_after = (if truthy aft then aft else None)\<rparr> 6 w of
        (Inl e, w1) \<Rightarrow> (Stop (Inl e), w1)
      | (Inr d, w1) \<Rightarrow>
          (let w2 = emit (Returned d) w1 in
           case listing_of d of
             Inl e \<Rightarrow> (Stop (Inl e), w2)
           | Inr l \<Rightarrow>
               if \<not> (case get_or (children l) [] of None \<Rightarrow> False | Some cs \<Rightarrow> cs \<noteq> [])
               then (Stop (Inr all_rows), w2)
               else
                 (case append_children (case get_or (children l) [] of None \<Rightarrow> [] | Some cs \<Rightarrow> cs)
                         limit_total all_rows of
                    Inl e \<Rightarrow> (Stop (Inl e), w2)
                  | Inr rows \<Rightarrow>
                      if \<not> truthy (get (after l)) then (Stop (Inr rows), w2)
                      else (Again rows (get (after l)), emit (Pause sleep_s) w2))))"


lemma append_children_grows:
  "append_children cs limit_total all_rows = Inr rows \<Longrightarrow> cs \<noteq> [] \<Longrightarrow> length all_rows < length rows"
proof (induction cs arbitrary: all_rows)
  case Nil
  then show ?case by simp
next
  case (Cons c cs)
  from Cons.prems(1) obtain p where p: "child_post c = Inr p"
    by (cases "child_post c") simp_all
  from Cons.prems(1) p obtain r where r: "to_schema p = Inr r"
    by (cases "to_schema p") simp_all
  show ?case
  proof (cases "limit_total \<le> int (length (all_rows @ [r]))")
    case True
    with Cons.prems(1) p r have "rows = all_rows @ [r]" by simp
    then show ?thesis by simp
  next
    case False
    with Cons.prems(1) p r have a: "append_children cs limit_total (all_rows @ [r]) = Inr rows" by simp
    show ?thesis
    proof (cases cs)
      case Nil
      with a show ?thesis by auto
    next
      case (Cons c' cs')
      with a Cons.IH [of "all_rows @ [r]"] show ?thesis by simp
    qed
  qed
qed
lemma page_iteration_grows:
  "page_iteration tr query limit_total sleep_s all_rows aft w = (Again rows a, w') \<Longrightarrow>
   length all_rows < length rows"
proof -
  assume a: "page_iteration tr query limit_total sleep_s all_rows aft w = (Again rows a, w')"
  obtain res w1 where f: "fetch_json tr \<lparr>param_q = query, param_after = (if truthy aft then aft else None)\<rparr> 6 w = (res, w1)"
    by (cases "fetch_json tr \<lparr>param_q = query, param_after = (if truthy aft then aft else None)\<rparr> 6 w")
  from a f obtain d where d: "res = Inr d"
    by (cases res) (simp_all add: page_iteration_def)
  from a f d obtain l where l: "listing_of d = Inr l"
    by (cases "listing_of d") (simp_all add: page_iteration_def Let_def)
  define cs where "cs = (case get_or (children l) [] of None \<Rightarrow> [] | Some cs \<Rightarrow> cs)"
  from a f d l have ne: "cs \<noteq> []"
    by (auto simp: page_iteration_def Let_def cs_def split: if_splits option.splits)
  from a f d l have "append_children cs limit_total all_rows = Inr rows"
    by (auto simp: page_iteration_def Let_def cs_def split: if_splits option.splits sum.splits)
  then show ?thesis using ne by (rule append_children_grows)
qed


function search_loop ::
  "transport \<Rightarrow> string \<Rightarrow> int \<Rightarrow> 'd \<Rightarrow> row list \<Rightarrow> string option \<Rightarrow> 'd world \<Rightarrow> (error + row list) \<times> 'd world" where
  "search_loop tr query limit_total sleep_s all_rows aft w =
     (if int (length all_rows) < limit_total then
        (case page_iteration tr query limit_total sleep_s all_rows aft w of
           (Stop res, w') \<Rightarrow> (res, w')
         | (Again rows a, w') \<Rightarrow> search_loop tr query limit_total sleep_s rows a w')
      else (Inr all_rows, w))"
  by pat_completeness auto
termination
  apply (relation "measure (\<lambda>(tr, query, limit_total, sleep_s, all_rows, aft, w). nat (limit_total - int (length all_rows)))")
  apply simp
  subgoal for tr query limit_total sleep_s all_rows aft w x1 x2 x3 x4
    using page_iteration_grows [of tr query limit_total sleep_s all_rows aft w x3 x4 x2]
    by simp
  done

declare search_loop.simps [simp del]

definition search_reddit ::
  "transport \<Rightarrow> string \<Rightarrow> int \<Rightarrow> 'd \<Rightarrow> 'd world \<Rightarrow> (error + row list) \<times> 'd world" where
  "search_reddit tr query limit_total sleep_s w = search_loop tr query limit_total sleep_s [] None w"

section \<open>The run: accumulation with de-duplication\<close>

text \<open>
  \<^verbatim>\<open>for r in rows:\<close>
  \<^verbatim>\<open>    pid = r.get("post_id")\<close>
  \<^verbatim>\<open>    if not pid or pid in seen_ids: continue\<close>
  \<^verbatim>\<open>    seen_ids.add(pid)\<close>
  \<^verbatim>\<open>    r["topic_tag"] = tag\<close>
  \<^verbatim>\<open>    r["engagement"] = int(r.get("likes", 0) or 0) + int(r.get("comments", 0) or 0)\<close>
  \<^verbatim>\<open>    combined.append(r)\<close>

  The state of the loop is the pair of \<open>combined\<close> and \<open>seen_ids\<close>. \<open>tagged tag r\<close> is the
  record \<open>r\<close> after the two assignments.
\<close>

definition tagged :: "string \<Rightarrow> row \<Rightarrow> row" where
  "tagged tag r = r\<lparr>topic_tag := Some tag,
     engagement := Some (int_or (Some (likes r)) 0 + int_or (Some (comments r)) 0)\<rparr>"

definition dedup_step :: "string \<Rightarrow> row \<Rightarrow> row list \<times> string set \<Rightarrow> row list \<times> string set" where
  "dedup_step tag r st =
     (case st of (combined, seen_ids) \<Rightarrow>
        (case post_id r of
           None \<Rightarrow> st
         | Some pid \<Rightarrow>
             if pid = [] \<or> pid \<in> seen_ids then st
             else (combined @ [tagged tag r], insert pid seen_ids)))"

fun dedup_rows :: "string \<Rightarrow> row list \<Rightarrow> row list \<times> string set \<Rightarrow> row list \<times> string set" where
  "dedup_rows tag [] st = st"
| "dedup_rows tag (r # rs) st = dedup_rows tag rs (dedup_step tag r st)"

text \<open>
  The accumulation over the results of all queries of a run, in processing order: each
  element is the tag of a query and the rows \<open>search_reddit\<close> returned for it.
\<close>

fun accumulate_from :: "(string \<times> row list) list \<Rightarrow> row list \<times> string set \<Rightarrow> row list \<times> string set" where
  "accumulate_from [] st = st"
| "accumulate_from ((tag, rows) # qs) st = accumulate_from qs (dedup_rows tag rows st)"

definition accumulate :: "(string \<times> row list) list \<Rightarrow> row list" where
  "accumulate qs = fst (accumulate_from qs ([], {}))"

text \<open>
  The main loop, \<open>for tag, q in topics.items()\<close>, with \<open>LIMIT_PER_TOPIC = 200\<close>. An
  exception of \<open>search_reddit\<close> is not caught: it ends the run. The topics are a
  parameter (the items of the dictionary \<open>topics\<close>), and so is \<open>SLEEP_S\<close>.
\<close>

fun main_loop ::
  "transport \<Rightarrow> 'd \<Rightarrow> (string \<times> string) list \<Rightarrow> row list \<times> string set \<Rightarrow> 'd world
     \<Rightarrow> (error + row list \<times> string set) \<times> 'd world" where
  "main_loop tr sleep_s [] st w = (Inr st, w)"
| "main_loop tr sleep_s ((tag, query) # topics) st w =
     (case search_reddit tr query 200 sleep_s w of
        (Inl e, w') \<Rightarrow> (Inl e, w')
      | (Inr rows, w') \<Rightarrow> main_loop tr sleep_s topics (dedup_rows tag rows st) w')"

section \<open>The sinks: \<open>save_jsonl\<close> and \<open>save_csv\<close>\<close>

text \<open>
  Both functions are modelled by the text they write to their file. \<open>join sep xs\<close> is
  \<open>sep.join(xs)\<close>.
\<close>

fun join :: "string \<Rightarrow> string list \<Rightarrow> string" where
  "join sep [] = []"
| "join sep [x] = x"
| "join sep (x # y # ys) = x @ sep @ join sep (y # ys)"

subsection \<open>\<open>json.dumps(r, ensure_ascii=False)\<close>\<close>

text \<open>
  With \<open>ensure_ascii=False\<close> the encoder escapes the quote, the backslash and the
  characters below U+0020 (\<open>\b \f \n \r \t\<close> by their short names, the others as
  \<open>\u00XX\<close> in lower-case hexadecimal) and writes every other character as it is. The
  separators are \<open>", "\<close> and \<open>": "\<close>. The keys come in the order of insertion: the
  fourteen keys of \<open>to_schema\<close>, then \<open>topic_tag\<close> and \<open>engagement\<close> when they are set.
\<close>

definition hex_digit :: "nat \<Rightarrow> char" where
  "hex_digit d = (if d < 10 then char_of (48 + d) else char_of (87 + d))"

definition json_escape :: "char \<Rightarrow> string" where
  "json_escape c = (let n = (of_char c :: nat) in
     if c = CHR 0x22 then [CHR 0x5C, CHR 0x22]
     else if c = CHR 0x5C then [CHR 0x5C, CHR 0x5C]
     else if n = 8 then [CHR 0x5C, CHR ''b'']
     else if n = 12 then [CHR 0x5C, CHR ''f'']
     else if n = 10 then [CHR 0x5C, CHR ''n'']
     else if n = 13 then [CHR 0x5C, CHR ''r'']
     else if n = 9 then [CHR 0x5C, CHR ''t'']
     else if n < 32 then [CHR 0x5C, CHR ''u'', CHR ''0'', CHR ''0'', hex_digit (n div 16), hex_digit (n mod 16)]
     else [c])"

definition json_str :: "string \<Rightarrow> string" where
  "json_str s = [CHR 0x22] @ concat (map json_escape s) @ [CHR 0x22]"

definition json_opt_str :: "string option \<Rightarrow> string" where
  "json_opt_str x = (case x of None \<Rightarrow> ''null'' | Some s \<Rightarrow> json_str s)"

definition json_list :: "string list \<Rightarrow> string" where
  "json_list xs = ''['' @ join '', '' (map json_str xs) @ '']''"

definition json_member :: "string \<Rightarrow> string \<Rightarrow> string" where
  "json_member k v = json_str k @ '': '' @ v"

definition json_members :: "row \<Rightarrow> string list" where
  "json_members r =
     [json_member ''post_id'' (json_opt_str (post_id r)),
      json_member ''platform'' (json_str (platform r)),
      json_member ''text'' (json_str (text' r)),
      json_member ''hashtags'' (json_list (hashtags r)),
      json_member ''mentions'' (json_list (mentions r)),
      json_member ''created_at'' (json_str (created_at r)),
      json_member ''likes'' (str_of_int (likes r)),
      json_member ''comments'' (str_of_int (comments r)),
      json_member ''shares'' (str_of_int (shares r)),
      json_member ''language'' (json_str (language r)),
      json_member ''location'' (json_opt_str (location r)),
      json_member ''subreddit'' (json_opt_str (subreddit r)),
      json_member ''permalink'' (json_str (permalink r)),
      json_member ''url'' (json_opt_str (url r))]
     @ (case topic_tag r of None \<Rightarrow> [] | Some t \<Rightarrow> [json_member ''topic_tag'' (json_str t)])
     @ (case engagement r of None \<Rightarrow> [] | Some e \<Rightarrow> [json_member ''engagement'' (str_of_int e)])"

definition json_dumps :: "row \<Rightarrow> string" where
  "json_dumps r = ''{'' @ join '', '' (json_members r) @ ''}''"

text \<open>
  \<^verbatim>\<open>for r in rows: f.write(json.dumps(r, ensure_ascii=False) + "\n")\<close>
\<close>

definition save_jsonl :: "row list \<Rightarrow> string" where
  "save_jsonl rows = foldl (\<lambda>f r. f @ json_dumps r @ [CHR 0x0A]) [] rows"

subsection \<open>\<open>csv.DictWriter\<close>\<close>

text \<open>
  The writer has the default dialect: the delimiter is the comma, a field that holds a
  comma, a quote, a carriage return or a line feed is put in quotes with its quotes
  doubled, and a row ends with \<open>\r\n\<close>. \<open>None\<close> is written as the empty field and an
  integer as \<open>str\<close> writes it. A key the record does not have is \<open>None\<close> for
  \<open>row.get(k)\<close>.
\<close>

definition fieldnames :: "string list" where
  "fieldnames = [''post_id'', ''platform'', ''text'', ''hashtags'', ''mentions'', ''created_at'',
     ''likes'', ''comments'', ''shares'', ''language'', ''location'', ''subreddit'',
     ''permalink'', ''url'', ''topic_tag'', ''engagement'']"

definition csv_special :: "char \<Rightarrow> bool" where
  "csv_special c = (c = CHR '','' \<or> c = CHR 0x22 \<or> c = CHR 0x0D \<or> c = CHR 0x0A)"

definition csv_field :: "string \<Rightarrow> string" where
  "csv_field s =
     (if list_ex csv_special s
      then [CHR 0x22] @ concat (map (\<lambda>c. if c = CHR 0x22 then [CHR 0x22, CHR 0x22] else [c]) s) @ [CHR 0x22]
      else s)"

definition writerow :: "string list \<Rightarrow> string" where
  "writerow cells = join '','' (map csv_field cells) @ [CHR 0x0D, CHR 0x0A]"

definition csv_opt :: "string option \<Rightarrow> string" where
  "csv_opt x = (case x of None \<Rightarrow> [] | Some s \<Rightarrow> s)"

definition csv_opt_int :: "int option \<Rightarrow> string" where
  "csv_opt_int x = (case x of None \<Rightarrow> [] | Some n \<Rightarrow> str_of_int n)"

text \<open>
  \<^verbatim>\<open>row["hashtags"] = ",".join(row.get("hashtags") or [])\<close>
  \<^verbatim>\<open>row["mentions"] = ",".join(row.get("mentions") or [])\<close>
  \<^verbatim>\<open>w.writerow({k: row.get(k) for k in fieldnames})\<close>
\<close>

definition csv_cells :: "row \<Rightarrow> string list" where
  "csv_cells r =
     [csv_opt (post_id r), platform r, text' r,
      join '','' (hashtags r), join '','' (mentions r),
      created_at r, str_of_int (likes r), str_of_int (comments r), str_of_int (shares r),
      language r, csv_opt (location r), csv_opt (subreddit r), permalink r, csv_opt (url r),
      csv_opt (topic_tag r), csv_opt_int (engagement r)]"

definition save_csv :: "row list \<Rightarrow> string" where
  "save_csv rows = foldl (\<lambda>f r. f @ writerow (csv_cells r)) (writerow fieldnames) rows"

text \<open>
  The end of the run: both files are written from \<open>combined\<close>, once, after the last
  query. The result is the pair of the two files.
\<close>

definition main :: "transport \<Rightarrow> 'd \<Rightarrow> (string \<times> string) list \<Rightarrow> 'd world \<Rightarrow> (error + string \<times> string) \<times> 'd world" where
  "main tr sleep_s topics w =
     (case main_loop tr sleep_s topics ([], {}) w of
        (Inl e, w') \<Rightarrow> (Inl e, w')
      | (Inr (combined, seen_ids), w') \<Rightarrow> (Inr (save_jsonl combined, save_csv combined), w'))"

section \<open>Definitions for the statements\<close>

text \<open>
  The definitions of this section are not part of the program: they name the notions
  that the theorems below use to speak about its runs and its output.
\<close>

subsection \<open>De-duplication\<close>

text \<open>
  \<open>occurrences qs\<close> lists the records of all queries in processing order, each with the
  tag of its query. \<open>with_post_id x out\<close> are the records of \<open>out\<close> whose \<open>post_id\<close> is \<open>x\<close>.
  \<open>dedup_inv\<close> is the invariant of the accumulation loop: every record of \<open>combined\<close> has
  a \<open>post_id\<close> that is neither \<open>None\<close> nor empty, the identifiers are pairwise distinct,
  and \<open>seen_ids\<close> holds exactly the identifiers of \<open>combined\<close>.
\<close>

definition occurrences :: "(string \<times> row list) list \<Rightarrow> (string \<times> row) list" where
  "occurrences qs = concat (map (\<lambda>(tag, rows). map (Pair tag) rows) qs)"

definition with_post_id :: "string option \<Rightarrow> row list \<Rightarrow> row list" where
  "with_post_id x out = filter (\<lambda>r. post_id r = x) out"

definition first_with :: "string option \<Rightarrow> (string \<times> row) list \<Rightarrow> (string \<times> row) option" where
  "first_with x occ = find (\<lambda>(tag, r). post_id r = x) occ"

definition dedup_inv :: "row list \<times> string set \<Rightarrow> bool" where
  "dedup_inv st = (case st of (combined, seen_ids) \<Rightarrow>
     list_all (\<lambda>r. truthy (post_id r)) combined
     \<and> distinct (map post_id combined)
     \<and> set (map post_id combined) = Some ` seen_ids)"

definition blank_row :: row where
  "blank_row = \<lparr>post_id = None, platform = ''reddit'', text' = [], hashtags = [], mentions = [],
     created_at = ''1970-01-01T00:00:00Z'', likes = 0, comments = 0, shares = 0,
     language = ''en'', location = None, subreddit = None,
     permalink = ''https://www.reddit.com'', url = None, topic_tag = None, engagement = None\<rparr>"

fun dedup_occ :: "(string \<times> row) list \<Rightarrow> row list \<times> string set \<Rightarrow> row list \<times> string set" where
  "dedup_occ [] st = st"
| "dedup_occ ((tag, r) # occ) st = dedup_occ occ (dedup_step tag r st)"

subsection \<open>Retry and backoff\<close>




fun served_from :: "transport \<Rightarrow> params \<Rightarrow> nat \<Rightarrow> response list \<Rightarrow> bool" where
  "served_from tr ps n [] = True"
| "served_from tr ps n (r # rs) = (tr n ps = Inr r \<and> served_from tr ps (Suc n) rs)"

definition served :: "transport \<Rightarrow> params \<Rightarrow> 'd world \<Rightarrow> response list \<Rightarrow> bool" where
  "served tr ps w rs = served_from tr ps (requests w) rs"

definition after_request :: "params \<Rightarrow> 'd event list \<Rightarrow> 'd world \<Rightarrow> 'd world" where
  "after_request ps evs w = w\<lparr>requests := Suc (requests w), trace := trace w @ HttpGet ps # evs\<rparr>"


subsection \<open>Pagination\<close>

text \<open>
  \<open>page_items d\<close> and \<open>page_cursor d\<close> are the items and the cursor of a page as the loop
  reads them (no items when \<open>children\<close> is absent, null or empty; no cursor when \<open>after\<close>
  is absent, null or empty). \<open>page_events\<close> keeps, of a trace, the pages returned to
  \<open>search_reddit\<close> and its polite sleeps. \<open>paced s evs\<close>: in the page events \<open>evs\<close>, every
  page that has items and a cursor is followed by exactly one sleep of \<open>s\<close>, and a page
  without items or without a cursor is the last event.
\<close>

definition page_items :: "envelope \<Rightarrow> child list" where
  "page_items d = (case listing_of d of
       Inl e \<Rightarrow> []
     | Inr l \<Rightarrow> (case get_or (children l) [] of None \<Rightarrow> [] | Some cs \<Rightarrow> cs))"

definition page_cursor :: "envelope \<Rightarrow> string option" where
  "page_cursor d = (case listing_of d of Inl e \<Rightarrow> None | Inr l \<Rightarrow> get (after l))"

definition is_page_event :: "'d event \<Rightarrow> bool" where
  "is_page_event e = (case e of Returned d \<Rightarrow> True | Pause s \<Rightarrow> True | HttpGet ps \<Rightarrow> False | Backoff n \<Rightarrow> False)"

definition page_events :: "'d event list \<Rightarrow> 'd event list" where
  "page_events evs = filter is_page_event evs"

definition pages :: "'d event list \<Rightarrow> nat" where
  "pages evs = length (filter (\<lambda>e. case e of Returned d \<Rightarrow> True | Pause s \<Rightarrow> False
                                  | HttpGet ps \<Rightarrow> False | Backoff n \<Rightarrow> False) evs)"

fun paced :: "'d \<Rightarrow> 'd event list \<Rightarrow> bool" where
  "paced s [] = True"
| "paced s [Returned d] = (page_items d = [] \<or> page_cursor d = None \<or> page_cursor d = Some [])"
| "paced s (Returned d # Pause s' # evs) =
     (page_items d \<noteq> [] \<and> truthy (page_cursor d) \<and> s' = s \<and> paced s evs)"
| "paced s evs = False"

subsection \<open>Example transports\<close>



definition always :: "response \<Rightarrow> transport" where
  "always r n ps = Inr r"

definition then_last :: "response \<Rightarrow> response \<Rightarrow> transport" where
  "then_last r r' n ps = (if n = 0 then Inr r else Inr r')"

definition ok :: "envelope \<Rightarrow> response" where
  "ok d = \<lparr>status_code = 200, retry_after = None, json_body = Some d\<rparr>"

definition item_page :: "string field \<Rightarrow> envelope" where
  "item_page a = \<lparr>data = Val \<lparr>children = Val [\<lparr>child_data = Val (empty_post\<lparr>p_name := Val ''t3_a''\<rparr>)\<rparr>],
                              after = a\<rparr>\<rparr>"

definition start :: "unit world" where
  "start = \<lparr>requests = 0, trace = []\<rparr>"

subsection \<open>Readers of the two files\<close>







subsection \<open>A reader of JSON objects\<close>




























subsection \<open>Sample records\<close>


section \<open>Properties of the scanner\<close>

lemma is_tag_at_Suc_nonword:
  "\<not> is_word c \<Longrightarrow> is_tag_at a (c # s) (Suc q) = is_tag_at a s q"
  by (cases q) (auto simp: is_tag_at_def)

lemma is_tag_at_Suc_Suc:
  "is_tag_at a (c # s) (Suc (Suc q)) = is_tag_at a s (Suc q)"
  by (auto simp: is_tag_at_def)

lemma is_tag_at_one_word:
  "is_word c \<Longrightarrow> \<not> is_tag_at a (c # s) (Suc 0)"
  by (auto simp: is_tag_at_def)

lemma tag_text_Suc: "tag_text (c # s) (Suc q) = tag_text s q"
  by (simp add: tag_text_def)

lemma tags_from_cons_nonword:
  assumes "\<not> is_word c"
  shows "tags_from a False (c # s) = tags_from a True s"
proof (rule set_eqI)
  fix t
  show "t \<in> tags_from a False (c # s) \<longleftrightarrow> t \<in> tags_from a True s"
  proof
    assume "t \<in> tags_from a False (c # s)"
    then obtain p where p: "t = tag_text (c # s) p" "is_tag_at a (c # s) p" "0 < p"
      by (auto simp: tags_from_def)
    then obtain q where q: "p = Suc q" by (cases p) auto
    with p assms have "t = tag_text s q" "is_tag_at a s q"
      by (simp_all add: tag_text_Suc is_tag_at_Suc_nonword)
    then show "t \<in> tags_from a True s" by (auto simp: tags_from_def)
  next
    assume "t \<in> tags_from a True s"
    then obtain q where q: "t = tag_text s q" "is_tag_at a s q"
      by (auto simp: tags_from_def)
    with assms have "t = tag_text (c # s) (Suc q)" "is_tag_at a (c # s) (Suc q)"
      by (simp_all add: tag_text_Suc is_tag_at_Suc_nonword)
    then show "t \<in> tags_from a False (c # s)" unfolding tags_from_def by blast
  qed
qed

lemma tags_from_cons_word:
  assumes "is_word c"
  shows "tags_from a False (c # s) = tags_from a False s"
proof (rule set_eqI)
  fix t
  show "t \<in> tags_from a False (c # s) \<longleftrightarrow> t \<in> tags_from a False s"
  proof
    assume "t \<in> tags_from a False (c # s)"
    then obtain p where p: "t = tag_text (c # s) p" "is_tag_at a (c # s) p" "0 < p"
      by (auto simp: tags_from_def)
    then obtain q where q: "p = Suc q" by (cases p) auto
    have "q \<noteq> 0"
    proof
      assume "q = 0"
      with p(2) q have "is_tag_at a (c # s) (Suc 0)" by simp
      with assms show False by (simp add: is_tag_at_one_word)
    qed
    then obtain q' where q': "q = Suc q'" by (cases q) auto
    with p q have "t = tag_text s q" "is_tag_at a s q" "0 < q"
      by (simp_all add: tag_text_Suc is_tag_at_Suc_Suc)
    then show "t \<in> tags_from a False s" by (auto simp: tags_from_def)
  next
    assume "t \<in> tags_from a False s"
    then obtain q where q: "t = tag_text s q" "is_tag_at a s q" "0 < q"
      by (auto simp: tags_from_def)
    then obtain q' where q': "q = Suc q'" by (cases q) auto
    with q have "t = tag_text (c # s) (Suc q)" "is_tag_at a (c # s) (Suc q)"
      by (simp_all add: tag_text_Suc is_tag_at_Suc_Suc)
    then show "t \<in> tags_from a False (c # s)" unfolding tags_from_def by blast
  qed
qed

lemma is_tag_at_0: "is_tag_at a s 0 \<longleftrightarrow> (\<exists>r. tag_body a s = Some (tag_text s 0, r))"
  by (cases s; cases "tl s") (auto simp: is_tag_at_def tag_body_def tag_text_def)

lemma tag_body_text: "tag_body a s = Some (g, r) \<Longrightarrow> g = tag_text s 0"
  by (auto simp: tag_body_def tag_text_def split: list.splits if_splits)

lemma tags_from_True:
  "tags_from a True s = (case tag_body a s of None \<Rightarrow> {} | Some (g, r) \<Rightarrow> {g}) \<union> tags_from a False s"
proof -
  have "tags_from a True s = {tag_text s 0 | p. is_tag_at a s 0} \<union> tags_from a False s"
    unfolding tags_from_def by (auto intro: gr0I) 
  moreover have "{tag_text s 0 | p::nat. is_tag_at a s 0} = (case tag_body a s of None \<Rightarrow> {} | Some (g, r) \<Rightarrow> {g})"
    by (auto simp: is_tag_at_0 split: option.splits dest: tag_body_text)
  ultimately show ?thesis by simp
qed

lemma tags_from_word_run:
  "\<forall>c \<in> set g. is_word c \<Longrightarrow> tags_from a False (g @ r) = tags_from a False r"
  by (induction g) (simp_all add: tags_from_cons_word)

lemma tag_body_None_word: "is_word c \<Longrightarrow> \<not> is_word a \<Longrightarrow> tag_body a (c # s) = None"
  by (auto simp: tag_body_def)

lemma tags_from_body:
  assumes "\<not> is_word a" "tag_body a s = Some (g, r)"
  shows "tags_from a False s = tags_from a False r"
proof -
  from assms(2) obtain s' where s: "s = a # s'" "g = takeWhile is_word s'" "r = dropWhile is_word s'" "g \<noteq> []"
    by (auto simp: tag_body_def split: list.splits if_splits)
  from s(4) obtain w g' where g: "g = w # g'" by (cases g) auto
  have gw: "\<forall>c \<in> set g. is_word c" using s(2) by (auto dest: set_takeWhileD)
  have "tags_from a False s = tags_from a True (g @ r)"
    using s assms(1) by (simp add: tags_from_cons_nonword)
  also have "\<dots> = tags_from a False (g @ r)"
    using g gw assms(1) by (simp add: tags_from_True tag_body_None_word)
  also have "\<dots> = tags_from a False r" using gw by (rule tags_from_word_run)
  finally show ?thesis .
qed

lemma tags_from_Nil: "tags_from a b [] = {}"
  by (simp add: tags_from_def is_tag_at_def)

lemma finditer_tags:
  "\<not> is_word a \<Longrightarrow> set (finditer a b s) = tags_from a b s"
proof (induction a b s rule: finditer.induct)
  case (1 a b s)
  show ?case
  proof (cases "match_here a b s")
    case None
    show ?thesis
    proof (cases s)
      case Nil
      then show ?thesis using None by (simp add: finditer.simps tags_from_Nil)
    next
      case (Cons c s')
      from None Cons have nb: "b \<Longrightarrow> tag_body a s = None"
        by (auto simp: match_here_def split: option.splits if_splits)
      from None Cons have nw: "\<not> is_word c \<Longrightarrow> tag_body a s' = None"
        by (auto simp: match_here_def split: option.splits if_splits)
      have "set (finditer a b s) = set (finditer a False s')"
        using None Cons by (simp add: finditer.simps)
      also have "\<dots> = tags_from a False s'" using 1 None Cons by simp
      also have "\<dots> = tags_from a False s"
        using Cons nw by (cases "is_word c") (simp_all add: tags_from_cons_word tags_from_cons_nonword tags_from_True)
      also have "\<dots> = tags_from a b s"
        using nb by (cases b) (simp_all add: tags_from_True)
      finally show ?thesis .
    qed
  next
    case (Some m)
    obtain g r where m: "m = (g, r)" by (cases m)
    have fi: "set (finditer a b s) = {g} \<union> tags_from a False r"
      using Some m 1 by (simp add: finditer.simps)
    show ?thesis
    proof (cases "b \<and> tag_body a s = Some (g, r)")
      case True
      then show ?thesis using fi 1(3) by (simp add: tags_from_True tags_from_body)
    next
      case False
      with Some m obtain c s' where s: "s = c # s'" "\<not> is_word c" "tag_body a s' = Some (g, r)"
        and nb: "b \<Longrightarrow> tag_body a s = None"
        by (auto simp: match_here_def split: option.splits if_splits list.splits)
      have "tags_from a b s = tags_from a False s"
        using nb by (cases b) (simp_all add: tags_from_True)
      also have "\<dots> = tags_from a True s'" using s by (simp add: tags_from_cons_nonword)
      also have "\<dots> = {g} \<union> tags_from a False r"
        using s 1(3) by (simp add: tags_from_True tags_from_body)
      finally show ?thesis using fi by simp
    qed
  qed
qed




lemma sorted_set_props: "set (sorted_set xs) = set xs \<and> sorted (sorted_set xs) \<and> distinct (sorted_set xs)"
  by (simp add: sorted_set_def)

lemma is_word_anchor: "\<not> is_word (CHR ''#'') \<and> \<not> is_word (CHR ''@'')"
  by (simp add: is_word_def)

lemma lower_word_idem: "is_word c \<Longrightarrow> lower_char (lower_char c) = lower_char c"
proof -
  assume w: "is_word c"
  define n where "n = (of_char c :: nat)"
  have c: "c = char_of n" by (simp add: n_def)
  have n: "n < 256" by (simp add: n_def)
  from w have r: "(48 \<le> n \<and> n \<le> 57) \<or> (65 \<le> n \<and> n \<le> 90) \<or> n = 95 \<or> (97 \<le> n \<and> n \<le> 122)"
    by (simp add: is_word_def n_def Let_def)
  show ?thesis
  proof (cases "65 \<le> n \<and> n \<le> 90")
    case True
    then have l: "lower_char c = char_of (n + 32)"
      by (simp add: lower_char_def n_def Let_def)
    have "of_char (char_of (n + 32) :: char) = n + 32" using True by (simp add: of_char_of)
    then show ?thesis using True unfolding l by (simp add: lower_char_def Let_def)
  next
    case False
    with r have "lower_char c = c"
      by (auto simp add: lower_char_def n_def Let_def)
    then show ?thesis by simp
  qed
qed
text \<open>
  Claim C4. Hashtag extraction follows the lexical rule: the result holds exactly the
  lower-cased tags that start at a \<open>#\<close> which is preceded by the start of the string or by
  a character outside \<open>[0-9A-Za-z_]\<close> and followed by one or more word characters; the
  result is sorted and free of duplicates. \<open>"Check this #AI_tool out, #cool"\<close> gives
  \<open>ai_tool\<close> and \<open>cool\<close>, \<open>"no-hash-here"\<close> gives nothing, and a \<open>#\<close> with no word
  character after it gives no match. Mention extraction is the same rule on \<open>@\<close>.
\<close>

theorem extract_hashtags_lexical_rule:
  "set (extract_hashtags (Some s)) = {lower (tag_text s p) | p. is_tag_at (CHR ''#'') s p}
   \<and> set (extract_mentions (Some s)) = {lower (tag_text s p) | p. is_tag_at (CHR ''@'') s p}
   \<and> sorted (extract_hashtags (Some s)) \<and> distinct (extract_hashtags (Some s))
   \<and> sorted (extract_mentions (Some s)) \<and> distinct (extract_mentions (Some s))
   \<and> extract_hashtags (Some ''Check this #AI_tool out, #cool'') = [''ai_tool'', ''cool'']
   \<and> extract_hashtags (Some ''no-hash-here'') = []
   \<and> extract_hashtags (Some ''a # b #! #'') = []
   \<and> extract_mentions (Some ''Ask @Bob_1 and @bob_1, not a@b or @'') = [''bob_1'']"
proof -
  have tags: "\<not> is_word a \<Longrightarrow> set (finditer a True s) = {tag_text s p | p. is_tag_at a s p}" for a
    by (simp add: finditer_tags tags_from_def)
  have h: "set (extract_hashtags (Some s)) = {lower (tag_text s p) | p. is_tag_at (CHR ''#'') s p}"
    using tags [of "CHR ''#''"] is_word_anchor
    by (auto simp: extract_hashtags_def or_empty_def sorted_set_props)
  have m: "set (extract_mentions (Some s)) = {lower (tag_text s p) | p. is_tag_at (CHR ''@'') s p}"
    using tags [of "CHR ''@''"] is_word_anchor
    by (auto simp: extract_mentions_def or_empty_def sorted_set_props)
  have e1: "extract_hashtags (Some ''Check this #AI_tool out, #cool'') = [''ai_tool'', ''cool'']"
    by code_simp
  have e2: "extract_hashtags (Some ''no-hash-here'') = []"
    by code_simp
  have e3: "extract_hashtags (Some ''a # b #! #'') = []"
    by code_simp
  have e4: "extract_mentions (Some ''Ask @Bob_1 and @bob_1, not a@b or @'') = [''bob_1'']"
    by code_simp
  have s1: "sorted (extract_hashtags (Some s)) \<and> distinct (extract_hashtags (Some s))"
    by (simp add: extract_hashtags_def sorted_set_props)
  have s2: "sorted (extract_mentions (Some s)) \<and> distinct (extract_mentions (Some s))"
    by (simp add: extract_mentions_def sorted_set_props)
  from h m s1 s2 e1 e2 e3 e4 show ?thesis by blast
qed

lemma finditer_words: "\<not> is_word a \<Longrightarrow> g \<in> set (finditer a b s) \<Longrightarrow> g \<noteq> [] \<and> (\<forall>c \<in> set g. is_word c)"
proof (induction a b s rule: finditer.induct)
  case (1 a b s)
  show ?case
  proof (cases "match_here a b s")
    case None
    show ?thesis
    proof (cases s)
      case Nil
      have "finditer a b s = []"
        using None Nil by (subst finditer.simps) simp
      with "1.prems" show ?thesis by simp
    next
      case (Cons c s')
      have "finditer a b s = finditer a False s'"
        using None Cons by (subst finditer.simps) simp
      with "1.IH"(1) [OF None Cons] "1.prems" show ?thesis by simp
    qed
  next
    case (Some m)
    obtain g' r where m: "m = (g', r)" by (cases m)
    from Some m have g': "g' \<noteq> [] \<and> (\<forall>c \<in> set g'. is_word c)"
      by (auto simp: match_here_def tag_body_def split: option.splits if_splits list.splits dest: set_takeWhileD)
    have "finditer a b s = g' # finditer a False r"
      using Some m by (subst finditer.simps) simp
    with "1.prems" have "g = g' \<or> g \<in> set (finditer a False r)"
      by simp
    with g' "1.IH"(2) [OF Some m [symmetric]] "1.prems" show ?thesis by auto
  qed
qed

text \<open>
  Claim C10. \<open>extract_hashtags\<close> and \<open>extract_mentions\<close> return a list for every input:
  for \<open>None\<close> and for the empty string it is the empty list, and for every input the list
  is sorted, free of duplicates, and made of non-empty strings that \<open>str.lower\<close> leaves
  unchanged.
\<close>

theorem extract_total_sorted_lowercase:
  "extract_hashtags None = [] \<and> extract_hashtags (Some []) = []
   \<and> extract_mentions None = [] \<and> extract_mentions (Some []) = []
   \<and> sorted (extract_hashtags t) \<and> distinct (extract_hashtags t)
   \<and> sorted (extract_mentions t) \<and> distinct (extract_mentions t)
   \<and> (\<forall>x \<in> set (extract_hashtags t) \<union> set (extract_mentions t). x \<noteq> [] \<and> lower x = x)"
proof -
  have empty: "finditer a True [] = []" for a
    by (simp add: finditer.simps match_here_def tag_body_def)
  have low: "x \<noteq> [] \<and> lower x = x" if "\<not> is_word a" "x \<in> set (map lower (finditer a True u))" for a x u
  proof -
    from that(2) obtain g where g: "g \<in> set (finditer a True u)" "x = lower g" by auto
    from finditer_words [OF that(1) g(1)] have "g \<noteq> []" "\<forall>c \<in> set g. is_word c" by auto
    then show ?thesis using g(2) by (auto simp: lower_def lower_word_idem)
  qed
  have "\<forall>x \<in> set (extract_hashtags t) \<union> set (extract_mentions t). x \<noteq> [] \<and> lower x = x"
    using low [of "CHR ''#''"] low [of "CHR ''@''"] is_word_anchor
    by (auto simp: extract_hashtags_def extract_mentions_def sorted_set_props simp del: set_map)
  moreover have "extract_hashtags None = [] \<and> extract_hashtags (Some []) = []
      \<and> extract_mentions None = [] \<and> extract_mentions (Some []) = []"
    by (simp add: extract_hashtags_def extract_mentions_def sorted_set_def or_empty_def empty)
  moreover have "sorted (extract_hashtags t) \<and> distinct (extract_hashtags t)
      \<and> sorted (extract_mentions t) \<and> distinct (extract_mentions t)"
    by (simp add: extract_hashtags_def extract_mentions_def sorted_set_props)
  ultimately show ?thesis by blast
qed

theorem extract_total_sorted_lowercase_witness:
  "extract_hashtags (Some ''#B #a #b'') = [''a'', ''b'']
   \<and> sorted [''a'', ''b''] \<and> distinct [''a'', ''b''] \<and> lower ''a'' = ''a'' \<and> lower ''b'' = ''b''"
proof -
  have e: "extract_hashtags (Some ''#B #a #b'') = [''a'', ''b'']" by code_simp
  have l: "lower ''a'' = ''a'' \<and> lower ''b'' = ''b''" by code_simp
  from extract_total_sorted_lowercase [of "Some ''#B #a #b''"] l show ?thesis
    unfolding e by blast
qed

section \<open>De-duplication\<close>

lemma dedup_occ_append: "dedup_occ (xs @ ys) st = dedup_occ ys (dedup_occ xs st)"
  by (induction xs st rule: dedup_occ.induct) simp_all

lemma dedup_rows_occ: "dedup_rows tag rows st = dedup_occ (map (Pair tag) rows) st"
  by (induction rows arbitrary: st) simp_all

lemma accumulate_from_occ: "accumulate_from qs st = dedup_occ (occurrences qs) st"
  by (induction qs st rule: accumulate_from.induct)
     (simp_all add: occurrences_def dedup_occ_append dedup_rows_occ)

lemma post_id_tagged: "post_id (tagged tag r) = post_id r"
  by (simp add: tagged_def)

lemma dedup_occ_with_post_id:
  "pid \<noteq> [] \<Longrightarrow>
   with_post_id (Some pid) (fst (dedup_occ occ (c, seen))) =
     with_post_id (Some pid) c @
       (if pid \<in> seen then []
        else (case first_with (Some pid) occ of None \<Rightarrow> [] | Some (t, r) \<Rightarrow> [tagged t r]))"
proof (induction occ arbitrary: c seen)
  case Nil
  then show ?case by (simp add: first_with_def)
next
  case (Cons x occ)
  obtain t r where x: "x = (t, r)" by (cases x)
  show ?case
  proof (cases "post_id r")
    case None
    then have "dedup_step t r (c, seen) = (c, seen)" by (simp add: dedup_step_def)
    with Cons x None show ?thesis by (simp add: first_with_def)
  next
    case (Some p)
    show ?thesis
    proof (cases "p = [] \<or> p \<in> seen")
      case True
      with Some have "dedup_step t r (c, seen) = (c, seen)" by (simp add: dedup_step_def)
      with Cons x Some True show ?thesis by (auto simp: first_with_def)
    next
      case False
      with Some have s: "dedup_step t r (c, seen) = (c @ [tagged t r], insert p seen)"
        by (simp add: dedup_step_def)
      show ?thesis
      proof (cases "p = pid")
        case True
        with Cons.IH [OF Cons.prems, of "c @ [tagged t r]" "insert p seen"] x s Some False
        show ?thesis by (simp add: first_with_def with_post_id_def post_id_tagged)
      next
        case False
        with Cons.IH [OF Cons.prems, of "c @ [tagged t r]" "insert p seen"] x s Some
        show ?thesis by (simp add: first_with_def with_post_id_def post_id_tagged)
      qed
    qed
  qed
qed

lemma dedup_step_inv: "dedup_inv st \<Longrightarrow> dedup_inv (dedup_step tag r st)"
proof -
  assume inv: "dedup_inv st"
  obtain c seen where st: "st = (c, seen)" by (cases st)
  show ?thesis
  proof (cases "post_id r")
    case None
    with inv st show ?thesis by (simp add: dedup_step_def)
  next
    case (Some p)
    show ?thesis
    proof (cases "p = [] \<or> p \<in> seen")
      case True
      with inv st Some show ?thesis by (auto simp: dedup_step_def)
    next
      case False
      with Some st have s: "dedup_step tag r st = (c @ [tagged tag r], insert p seen)"
        by (simp add: dedup_step_def)
      from inv st have i: "list_all (\<lambda>r. truthy (post_id r)) c" "distinct (map post_id c)"
        "set (map post_id c) = Some ` seen"
        by (simp_all add: dedup_inv_def)
      from i(3) False have "Some p \<notin> set (map post_id c)" by auto
      with i Some False show ?thesis
        unfolding s dedup_inv_def by (simp add: post_id_tagged truthy_def)
    qed
  qed
qed

lemma dedup_occ_inv: "dedup_inv st \<Longrightarrow> dedup_inv (dedup_occ occ st)"
  by (induction occ st rule: dedup_occ.induct) (simp_all add: dedup_step_inv)

lemma dedup_inv_init: "dedup_inv ([], {})"
  by (simp add: dedup_inv_def)

lemma dedup_inv_falsy: "dedup_inv (c, seen) \<Longrightarrow> with_post_id None c = [] \<and> with_post_id (Some []) c = []"
  by (auto simp: dedup_inv_def with_post_id_def list_all_iff filter_empty_conv truthy_def)

lemma main_loop_inv:
  "main_loop tr sleep_s topics st w = (Inr st', w') \<Longrightarrow> dedup_inv st \<Longrightarrow> dedup_inv st'"
proof (induction topics arbitrary: st w)
  case Nil
  then show ?case by simp
next
  case (Cons x topics)
  obtain tag query where x: "x = (tag, query)" by (cases x)
  obtain res w1 where s: "search_reddit tr query 200 sleep_s w = (res, w1)"
    by (cases "search_reddit tr query 200 sleep_s w")
  from Cons.prems(1) x s obtain rows where rows: "res = Inr rows"
    by (cases res) simp_all
  from Cons.prems(1) x s rows have "main_loop tr sleep_s topics (dedup_rows tag rows st) w1 = (Inr st', w')"
    by simp
  moreover have "dedup_inv (dedup_rows tag rows st)"
    using Cons.prems(2) by (simp add: dedup_rows_occ dedup_occ_inv)
  ultimately show ?case by (rule Cons.IH)
qed

lemma to_schema_empty_post: "to_schema empty_post = Inr blank_row"
  by code_simp

lemma to_schema_post_id:
  "to_schema p = Inr r \<Longrightarrow> post_id r = opt_or (get (p_name p)) (get (p_id p))"
  by (auto simp: to_schema_def Let_def split: sum.splits)

text \<open>
  Claim C1, as stated, fails on the code: a record whose \<open>post_id\<close> is \<open>None\<close> (the record
  \<open>to_schema\<close> makes of a post with neither \<open>name\<close> nor \<open>id\<close>) occurs in the input, and the
  combined output has no record with that \<open>post_id\<close>.
\<close>

theorem dedup_null_id_counterexample:
  "to_schema empty_post = Inr blank_row
   \<and> map snd (occurrences [(''ai'', [blank_row])]) = [blank_row]
   \<and> length (with_post_id (post_id blank_row) (accumulate [(''ai'', [blank_row])])) \<noteq> 1"
proof -
  have "accumulate [(''ai'', [blank_row])] = []"
    by (simp add: accumulate_def dedup_step_def blank_row_def)
  then show ?thesis
    by (simp add: to_schema_empty_post occurrences_def with_post_id_def)
qed

text \<open>
  Claim C1, amended. For every input and every \<open>post_id\<close> that is a non-empty string, the
  combined output holds exactly one record with that \<open>post_id\<close> when it occurs in the
  input, and none otherwise: it is the first occurrence in processing order, with
  \<open>topic_tag\<close> set to the tag of the query that produced it and \<open>engagement\<close> to its
  \<open>likes + comments\<close>, and no other field changed; later occurrences are dropped. Records
  whose \<open>post_id\<close> is \<open>None\<close> or empty are dropped.
\<close>

theorem dedup_first_occurrence_wins:
  "(pid \<noteq> [] \<longrightarrow>
      with_post_id (Some pid) (accumulate qs) =
        (case first_with (Some pid) (occurrences qs) of
           None \<Rightarrow> []
         | Some (t, r) \<Rightarrow> [r\<lparr>topic_tag := Some t, engagement := Some (likes r + comments r)\<rparr>]))
   \<and> with_post_id None (accumulate qs) = []
   \<and> with_post_id (Some []) (accumulate qs) = []"
proof -
  have tg: "tagged t r = r\<lparr>topic_tag := Some t, engagement := Some (likes r + comments r)\<rparr>" for t r
    by (simp add: tagged_def int_or_def)
  have inv: "dedup_inv (accumulate qs, snd (accumulate_from qs ([], {})))"
    using dedup_occ_inv [OF dedup_inv_init, of "occurrences qs"]
    by (simp add: accumulate_def accumulate_from_occ)
  have "pid \<noteq> [] \<Longrightarrow> with_post_id (Some pid) (accumulate qs) =
        (case first_with (Some pid) (occurrences qs) of None \<Rightarrow> [] | Some (t, r) \<Rightarrow> [tagged t r])"
    using dedup_occ_with_post_id [of pid "occurrences qs" "[]" "{}"]
    by (simp add: accumulate_def accumulate_from_occ with_post_id_def)
  with dedup_inv_falsy [OF inv] show ?thesis
    by (simp add: tg split: option.splits prod.splits)
qed

theorem dedup_first_occurrence_wins_witness:
  "with_post_id (Some ''t3_abc'')
     (accumulate [(''ai'', [blank_row\<lparr>post_id := Some ''t3_abc'', likes := 3\<rparr>]),
                  (''ml'', [blank_row\<lparr>post_id := Some ''t3_abc'', likes := 9\<rparr>])])
   = [blank_row\<lparr>post_id := Some ''t3_abc'', likes := 3, topic_tag := Some ''ai'', engagement := Some 3\<rparr>]"
proof -
  have f: "first_with (Some ''t3_abc'')
      (occurrences [(''ai'', [blank_row\<lparr>post_id := Some ''t3_abc'', likes := 3\<rparr>]),
                    (''ml'', [blank_row\<lparr>post_id := Some ''t3_abc'', likes := 9\<rparr>])])
     = Some (''ai'', blank_row\<lparr>post_id := Some ''t3_abc'', likes := 3\<rparr>)"
    by (simp add: first_with_def occurrences_def)
  have c: "comments blank_row = 0" by (simp add: blank_row_def)
  from dedup_first_occurrence_wins [of "''t3_abc''"
      "[(''ai'', [blank_row\<lparr>post_id := Some ''t3_abc'', likes := 3\<rparr>]),
        (''ml'', [blank_row\<lparr>post_id := Some ''t3_abc'', likes := 9\<rparr>])]"]
  show ?thesis unfolding f by (simp add: c)
qed

text \<open>
  Claim C9. Every record of the combined output has a \<open>post_id\<close> that is neither \<open>None\<close>
  nor empty, and the identifiers of the output are pairwise distinct. This is an
  invariant of the accumulation loop: it holds at the start and every iteration keeps
  it. A record made of a post with neither \<open>name\<close> nor \<open>id\<close> has \<open>post_id = None\<close> and the
  loop leaves its state unchanged for it.
\<close>

theorem output_ids_nonempty_distinct:
  "dedup_inv ([], {})
   \<and> (dedup_inv st \<longrightarrow> dedup_inv (dedup_step tag r st))
   \<and> (dedup_inv st \<longrightarrow> dedup_inv (dedup_rows tag rows st))
   \<and> list_all (\<lambda>r. truthy (post_id r)) (accumulate qs)
   \<and> distinct (map post_id (accumulate qs))
   \<and> (main_loop tr sleep_s topics ([], {}) w = (Inr (combined, seen_ids), w') \<longrightarrow>
        list_all (\<lambda>r. truthy (post_id r)) combined \<and> distinct (map post_id combined))
   \<and> (get (p_name p) = None \<and> get (p_id p) = None \<and> to_schema p = Inr r' \<longrightarrow>
        post_id r' = None \<and> dedup_step tag r' st = st)"
proof -
  have a: "dedup_inv (accumulate qs, snd (accumulate_from qs ([], {})))"
    using dedup_occ_inv [OF dedup_inv_init, of "occurrences qs"]
    by (simp add: accumulate_def accumulate_from_occ)
  have m: "main_loop tr sleep_s topics ([], {}) w = (Inr (combined, seen_ids), w') \<Longrightarrow>
      list_all (\<lambda>r. truthy (post_id r)) combined \<and> distinct (map post_id combined)"
    using main_loop_inv [of tr sleep_s topics "([], {})" w "(combined, seen_ids)" w', OF _ dedup_inv_init]
    by (simp add: dedup_inv_def)
  have n: "get (p_name p) = None \<and> get (p_id p) = None \<and> to_schema p = Inr r' \<Longrightarrow>
      post_id r' = None \<and> dedup_step tag r' st = st"
    using to_schema_post_id [of p r']
    by (cases st) (simp add: opt_or_def truthy_def dedup_step_def)
  from a have "list_all (\<lambda>r. truthy (post_id r)) (accumulate qs) \<and> distinct (map post_id (accumulate qs))"
    by (simp add: dedup_inv_def)
  with m n show ?thesis
    by (simp add: dedup_inv_init dedup_step_inv dedup_rows_occ dedup_occ_inv)
qed

theorem output_ids_nonempty_distinct_witness:
  "dedup_inv ([], {})
   \<and> dedup_inv (dedup_step ''ai'' (blank_row\<lparr>post_id := Some ''t3_abc''\<rparr>) ([], {}))
   \<and> to_schema empty_post = Inr blank_row
   \<and> post_id blank_row = None
   \<and> dedup_step ''ai'' blank_row ([], {}) = ([], {})
   \<and> main_loop (\<lambda>n ps. Inl ConnectionError) () [] ([], {}) \<lparr>requests = 0, trace = []\<rparr>
       = (Inr ([], {}), \<lparr>requests = 0, trace = []\<rparr>)"
proof -
  have g: "get (p_name empty_post) = None \<and> get (p_id empty_post) = None"
    by (simp add: empty_post_def get_def)
  from output_ids_nonempty_distinct [of "([], {})" "''ai''" "blank_row\<lparr>post_id := Some ''t3_abc''\<rparr>"
      "[]" "[]" "\<lambda>n ps. Inl ConnectionError" "()" "[]" "\<lparr>requests = 0, trace = []\<rparr>" "[]" "{}"
      "\<lparr>requests = 0, trace = []\<rparr>" empty_post blank_row]
    g to_schema_empty_post
  show ?thesis by simp
qed

section \<open>The transformer\<close>

lemma to_schema_Inr:
  assumes "iso_utc (int_or (get_or (p_created_utc p) 0) 0) = Inr c"
  shows "to_schema p = Inr
    \<lparr>post_id = opt_or (get (p_name p)) (get (p_id p)),
     platform = ''reddit'',
     text' = (if str_or (get (p_selftext p)) [] \<noteq> []
              then strip (str_or (get (p_title p)) [] @ [CHR 0x0A, CHR 0x0A] @ str_or (get (p_selftext p)) [])
              else strip (str_or (get (p_title p)) [])),
     hashtags = extract_hashtags (Some (if str_or (get (p_selftext p)) [] \<noteq> []
              then strip (str_or (get (p_title p)) [] @ [CHR 0x0A, CHR 0x0A] @ str_or (get (p_selftext p)) [])
              else strip (str_or (get (p_title p)) []))),
     mentions = extract_mentions (Some (if str_or (get (p_selftext p)) [] \<noteq> []
              then strip (str_or (get (p_title p)) [] @ [CHR 0x0A, CHR 0x0A] @ str_or (get (p_selftext p)) [])
              else strip (str_or (get (p_title p)) []))),
     created_at = c,
     likes = int_or (get_or (p_score p) 0) 0,
     comments = int_or (get_or (p_num_comments p) 0) 0,
     shares = 0, language = ''en'', location = None,
     subreddit = get (p_subreddit p),
     permalink = ''https://www.reddit.com'' @ str_or (get (p_permalink p)) [],
     url = get (p_url p), topic_tag = None, engagement = None\<rparr>"
  using assms by (simp add: to_schema_def Let_def)

lemma iso_utc_in_range:
  "- 62135596800 \<le> ts \<and> ts \<le> 253402300799 \<Longrightarrow> \<exists>c. iso_utc ts = Inr c"
  by (simp add: iso_utc_def Let_def split: prod.splits)

text \<open>
  Claim C8, as stated, fails on the code: for a post with no \<open>score\<close> and no
  \<open>num_comments\<close> whose \<open>created_utc\<close> lies after the year 9999, \<open>iso_utc\<close> raises and
  \<open>to_schema\<close> produces no record.
\<close>

theorem to_schema_timestamp_counterexample:
  "p_score (empty_post\<lparr>p_created_utc := Val 253402300800\<rparr>) = Absent
   \<and> p_num_comments (empty_post\<lparr>p_created_utc := Val 253402300800\<rparr>) = Absent
   \<and> to_schema (empty_post\<lparr>p_created_utc := Val 253402300800\<rparr>) = Inl OutOfRange"
  by (simp add: empty_post_def to_schema_def Let_def iso_utc_def get_or_def int_or_def)

text \<open>
  Claim C8, amended. For every raw item whose \<open>created_utc\<close> is absent, null or a
  timestamp within the years 1 .. 9999, \<open>to_schema\<close> produces a record; in it \<open>likes\<close> is 0
  when \<open>score\<close> is absent or null, \<open>comments\<close> is 0 when \<open>num_comments\<close> is absent or null,
  and \<open>shares\<close> is 0; \<open>text\<close> is the title, two line feeds and the body, trimmed, when both
  exist (the body not empty), and the trimmed title when the body is absent or null.
  For any other \<open>created_utc\<close> it raises.
\<close>

theorem to_schema_numeric_defaults:
  "(- 62135596800 \<le> int_or (get_or (p_created_utc p) 0) 0
      \<and> int_or (get_or (p_created_utc p) 0) 0 \<le> 253402300799 \<longrightarrow>
      (\<exists>r. to_schema p = Inr r
         \<and> (p_score p = Absent \<or> p_score p = Null \<longrightarrow> likes r = 0)
         \<and> (p_num_comments p = Absent \<or> p_num_comments p = Null \<longrightarrow> comments r = 0)
         \<and> shares r = 0
         \<and> (\<forall>t b. p_title p = Val t \<and> p_selftext p = Val b \<and> b \<noteq> [] \<longrightarrow>
               text' r = strip (t @ [CHR 0x0A, CHR 0x0A] @ b))
         \<and> (\<forall>t. p_title p = Val t \<and> (p_selftext p = Absent \<or> p_selftext p = Null) \<longrightarrow>
               text' r = strip t)))
   \<and> (int_or (get_or (p_created_utc p) 0) 0 < - 62135596800
      \<or> 253402300799 < int_or (get_or (p_created_utc p) 0) 0 \<longrightarrow> to_schema p = Inl OutOfRange)"
proof (intro conjI impI)
  assume "- 62135596800 \<le> int_or (get_or (p_created_utc p) 0) 0
      \<and> int_or (get_or (p_created_utc p) 0) 0 \<le> 253402300799"
  from iso_utc_in_range [OF this] obtain c
    where c: "iso_utc (int_or (get_or (p_created_utc p) 0) 0) = Inr c" by blast
  have t1: "str_or (Some t) [] = t" for t by (simp add: str_or_def)
  show "\<exists>r. to_schema p = Inr r
         \<and> (p_score p = Absent \<or> p_score p = Null \<longrightarrow> likes r = 0)
         \<and> (p_num_comments p = Absent \<or> p_num_comments p = Null \<longrightarrow> comments r = 0)
         \<and> shares r = 0
         \<and> (\<forall>t b. p_title p = Val t \<and> p_selftext p = Val b \<and> b \<noteq> [] \<longrightarrow>
               text' r = strip (t @ [CHR 0x0A, CHR 0x0A] @ b))
         \<and> (\<forall>t. p_title p = Val t \<and> (p_selftext p = Absent \<or> p_selftext p = Null) \<longrightarrow>
               text' r = strip t)"
    unfolding to_schema_Inr [OF c]
    by (auto simp: get_def get_or_def int_or_def t1 str_or_def)
next
  assume "int_or (get_or (p_created_utc p) 0) 0 < - 62135596800
      \<or> 253402300799 < int_or (get_or (p_created_utc p) 0) 0"
  then show "to_schema p = Inl OutOfRange"
    by (auto simp: to_schema_def Let_def iso_utc_def)
qed

theorem to_schema_numeric_defaults_witness:
  "\<exists>r. to_schema (empty_post\<lparr>p_title := Val '' Hello '', p_selftext := Val ''body '', p_num_comments := Null\<rparr>) = Inr r
     \<and> likes r = 0 \<and> comments r = 0 \<and> shares r = 0
     \<and> text' r = ''Hello '' @ [CHR 0x0A, CHR 0x0A] @ ''body''"
proof -
  have s: "strip ('' Hello '' @ [CHR 0x0A, CHR 0x0A] @ ''body '') = ''Hello '' @ [CHR 0x0A, CHR 0x0A] @ ''body''"
    by code_simp
  have "\<exists>r. to_schema (empty_post\<lparr>p_title := Val '' Hello '', p_selftext := Val ''body '', p_num_comments := Null\<rparr>) = Inr r
     \<and> likes r = 0 \<and> comments r = 0 \<and> shares r = 0
     \<and> text' r = strip ('' Hello '' @ [CHR 0x0A, CHR 0x0A] @ ''body '')"
    using to_schema_numeric_defaults [of "empty_post\<lparr>p_title := Val '' Hello '', p_selftext := Val ''body '', p_num_comments := Null\<rparr>"]
    by (simp add: empty_post_def get_or_def int_or_def)
  then show ?thesis unfolding s .
qed

section \<open>Retry and backoff\<close>

lemma served_Cons:
  "served tr ps w (r # rs) \<longleftrightarrow>
     tr (requests w) ps = Inr r \<and> served tr ps (after_request ps evs w) rs"
  by (simp add: served_def after_request_def)

lemma http_get_served:
  "tr (requests w) ps = Inr r \<Longrightarrow> http_get tr ps w = (Inr r, after_request ps [] w)"
  by (simp add: http_get_def emit_def after_request_def)

lemma emit_after_request: "emit e (after_request ps [] w) = after_request ps [e] w"
  by (simp add: emit_def after_request_def)











lemma sorted_py_range: "sorted (py_range n)"
  by (simp add: py_range_def)

lemma py_range_nonneg: "a \<in> set (py_range n) \<Longrightarrow> 0 \<le> a \<and> a < n"
  by (simp add: py_range_def)







lemma fetch_loop_forbidden_step:
  "tr (requests w) ps = Inr r \<Longrightarrow> status_code r = 403 \<Longrightarrow>
   fetch_loop tr ps max_retries (attempt # rest) w =
     (if attempt < max_retries - 1
      then fetch_loop tr ps max_retries rest (after_request ps [Backoff (min (2 ^ nat attempt) 30)] w)
      else (Inl (HTTPError 403), after_request ps [] w))"
  by (simp add: http_get_served [of tr w ps r] emit_after_request raise_for_status_def)

lemma fetch_loop_other_step:
  "tr (requests w) ps = Inr r \<Longrightarrow> status_code r \<notin> {429, 503, 403} \<Longrightarrow>
   fetch_loop tr ps max_retries (attempt # rest) w =
     ((if 400 \<le> status_code r \<and> status_code r < 600 then Inl (HTTPError (status_code r))
       else (case json_body r of None \<Rightarrow> Inl JSONDecodeError | Some j \<Rightarrow> Inr j)),
      after_request ps [] w)"
  by (simp add: http_get_served [of tr w ps r] raise_for_status_def split: option.splits)

lemma fetch_loop_forbidden:
  "length rs = nat (max_retries - i) \<Longrightarrow> i \<le> max_retries - 1 \<Longrightarrow> served tr ps w rs \<Longrightarrow>
   list_all (\<lambda>r. status_code r = 403) rs \<Longrightarrow>
   fetch_loop tr ps max_retries [i..max_retries - 1] w =
     (Inl (HTTPError 403),
      w\<lparr>requests := requests w + nat (max_retries - i),
        trace := trace w @ concat (map (\<lambda>a. [HttpGet ps, Backoff (min (2 ^ nat a) 30)]) [i..max_retries - 2])
                 @ [HttpGet ps]\<rparr>)"
proof (induction rs arbitrary: i w)
  case Nil
  then show ?case by simp
next
  case (Cons r rs)
  from Cons.prems(3) have tr: "tr (requests w) ps = Inr r"
    and sv: "served tr ps (after_request ps [Backoff (min (2 ^ nat i) 30)] w) rs"
    using served_Cons [of tr ps w r rs "[Backoff (min (2 ^ nat i) 30)]"] by simp_all
  from Cons.prems(4) have st: "status_code r = 403" and sts: "list_all (\<lambda>r. status_code r = 403) rs"
    by simp_all
  have up: "[i..max_retries - 1] = i # [i + 1..max_retries - 1]"
    using Cons.prems(2) by (simp add: upto_rec1)
  show ?case
  proof (cases "i < max_retries - 1")
    case True
    then have up2: "[i..max_retries - 2] = i # [i + 1..max_retries - 2]"
      by (simp add: upto_rec1)
    from Cons.prems(1) True have len: "length rs = nat (max_retries - (i + 1))" by simp
    from True have le: "i + 1 \<le> max_retries - 1" by simp
    have "fetch_loop tr ps max_retries [i..max_retries - 1] w =
        fetch_loop tr ps max_retries [i + 1..max_retries - 1] (after_request ps [Backoff (min (2 ^ nat i) 30)] w)"
      unfolding up using True
      by (simp add: fetch_loop_forbidden_step [of tr w ps r max_retries i "[i + 1..max_retries - 1]", OF tr st]
          del: fetch_loop.simps)
    also note Cons.IH [OF len le sv sts]
    finally show ?thesis
      using True unfolding up2 by (simp add: after_request_def nat_diff_distrib Suc_nat_eq_nat_zadd1 nat_add_distrib)
  next
    case False
    with Cons.prems(2) have i: "i = max_retries - 1" by simp
    then have "[i..max_retries - 2] = []" by simp
    moreover have "[i..max_retries - 1] = [i]" using i by simp
    then have "fetch_loop tr ps max_retries [i..max_retries - 1] w = (Inl (HTTPError 403), after_request ps [] w)"
      using False
      by (simp add: fetch_loop_forbidden_step [of tr w ps r max_retries i "[]", OF tr st]
          del: fetch_loop.simps)
    ultimately show ?thesis using i by (simp add: after_request_def)
  qed
qed

text \<open>
  Claim C6, as stated, fails on the code: a response whose status is outside 200 .. 299
  and not 429, 503 or 403 is not always a failure. \<open>raise_for_status\<close> raises only for
  400 .. 599; with the status 300 and a body that decodes, \<open>fetch_json\<close> returns the body.
\<close>

theorem status_300_counterexample:
  "fetch_json (\<lambda>n ps. Inr \<lparr>status_code = 300, retry_after = None, json_body = Some \<lparr>data = Absent\<rparr>\<rparr>)
      \<lparr>param_q = ''ai'', param_after = None\<rparr> 6 (\<lparr>requests = 0, trace = []\<rparr> :: unit world)
     = (Inr \<lparr>data = Absent\<rparr>,
        \<lparr>requests = 1, trace = [HttpGet \<lparr>param_q = ''ai'', param_after = None\<rparr>]\<rparr>)"
proof -
  have r: "py_range 6 = [0, 1, 2, 3, 4, 5]" by code_simp
  show ?thesis
    unfolding fetch_json_def r
    by (simp add: http_get_def emit_def raise_for_status_def)
qed

text \<open>
  Claim C6, amended. A 403 is retried after a sleep of \<open>min(2 ^ attempt, 30)\<close> seconds, at
  most 30, while \<open>attempt < max_retries - 1\<close>; on the last attempt it is raised as
  \<open>HTTPError\<close>: when every attempt is answered by a 403, \<open>fetch_json\<close> issues \<open>max_retries\<close>
  requests, sleeps after all but the last, and raises \<open>HTTPError 403\<close>. A response with
  any other status than 429, 503 and 403 is never retried: no sleep and no further
  request follow; with a status in 400 .. 599 it is raised as \<open>HTTPError\<close> at once, with any
  other status the body is decoded and returned (or \<open>JSONDecodeError\<close> is raised).
\<close>

theorem forbidden_and_hard_failures:
  "(length rs = nat max_retries \<and> 0 < max_retries \<and> served tr ps w rs
      \<and> list_all (\<lambda>r. status_code r = 403) rs \<longrightarrow>
      fetch_json tr ps max_retries w =
        (Inl (HTTPError 403),
         w\<lparr>requests := requests w + nat max_retries,
           trace := trace w @ concat (map (\<lambda>a. [HttpGet ps, Backoff (min (2 ^ nat a) 30)])
                                        (py_range (max_retries - 1)))
                    @ [HttpGet ps]\<rparr>))
   \<and> min ((2::int) ^ nat attempt) 30 \<le> 30
   \<and> (tr (requests w) ps = Inr r \<and> status_code r = 403 \<and> attempt < max_retries - 1 \<longrightarrow>
        fetch_loop tr ps max_retries (attempt # rest) w =
          fetch_loop tr ps max_retries rest (after_request ps [Backoff (min (2 ^ nat attempt) 30)] w))
   \<and> (tr (requests w) ps = Inr r \<and> status_code r = 403 \<and> max_retries - 1 \<le> attempt \<longrightarrow>
        fetch_loop tr ps max_retries (attempt # rest) w = (Inl (HTTPError 403), after_request ps [] w))
   \<and> (tr (requests w) ps = Inr r \<and> status_code r \<notin> {429, 503, 403}
        \<and> 400 \<le> status_code r \<and> status_code r < 600 \<longrightarrow>
        fetch_loop tr ps max_retries (attempt # rest) w =
          (Inl (HTTPError (status_code r)), after_request ps [] w))
   \<and> (tr (requests w) ps = Inr r \<and> status_code r \<notin> {429, 503, 403}
        \<and> \<not> (400 \<le> status_code r \<and> status_code r < 600) \<longrightarrow>
        fetch_loop tr ps max_retries (attempt # rest) w =
          ((case json_body r of None \<Rightarrow> Inl JSONDecodeError | Some j \<Rightarrow> Inr j), after_request ps [] w))"
proof -
  have run: "fetch_json tr ps max_retries w =
        (Inl (HTTPError 403),
         w\<lparr>requests := requests w + nat max_retries,
           trace := trace w @ concat (map (\<lambda>a. [HttpGet ps, Backoff (min (2 ^ nat a) 30)])
                                        (py_range (max_retries - 1)))
                    @ [HttpGet ps]\<rparr>)"
    if "length rs = nat max_retries \<and> 0 < max_retries \<and> served tr ps w rs
      \<and> list_all (\<lambda>r. status_code r = 403) rs"
    using fetch_loop_forbidden [of rs max_retries 0 tr ps w] that
    by (simp add: fetch_json_def py_range_def)
  have s1: "fetch_loop tr ps max_retries (attempt # rest) w =
          fetch_loop tr ps max_retries rest (after_request ps [Backoff (min (2 ^ nat attempt) 30)] w)"
    if "tr (requests w) ps = Inr r \<and> status_code r = 403 \<and> attempt < max_retries - 1"
    using that fetch_loop_forbidden_step [of tr w ps r max_retries attempt rest]
    by (simp del: fetch_loop.simps)
  have s2: "fetch_loop tr ps max_retries (attempt # rest) w = (Inl (HTTPError 403), after_request ps [] w)"
    if "tr (requests w) ps = Inr r \<and> status_code r = 403 \<and> max_retries - 1 \<le> attempt"
    using that fetch_loop_forbidden_step [of tr w ps r max_retries attempt rest]
    by (simp del: fetch_loop.simps)
  have s3: "fetch_loop tr ps max_retries (attempt # rest) w =
          (Inl (HTTPError (status_code r)), after_request ps [] w)"
    if "tr (requests w) ps = Inr r \<and> status_code r \<notin> {429, 503, 403}
        \<and> 400 \<le> status_code r \<and> status_code r < 600"
    using that fetch_loop_other_step [of tr w ps r max_retries attempt rest]
    by (simp del: fetch_loop.simps)
  have s4: "fetch_loop tr ps max_retries (attempt # rest) w =
          ((case json_body r of None \<Rightarrow> Inl JSONDecodeError | Some j \<Rightarrow> Inr j), after_request ps [] w)"
    if "tr (requests w) ps = Inr r \<and> status_code r \<notin> {429, 503, 403}
        \<and> \<not> (400 \<le> status_code r \<and> status_code r < 600)"
    using that fetch_loop_other_step [of tr w ps r max_retries attempt rest]
    by (auto simp del: fetch_loop.simps)
  have b: "min ((2::int) ^ nat attempt) 30 \<le> 30" by simp
  from run s1 s2 s3 s4 b show ?thesis by blast
qed

theorem forbidden_and_hard_failures_witness:
  "fetch_json (\<lambda>n ps. Inr \<lparr>status_code = 403, retry_after = None, json_body = None\<rparr>)
      \<lparr>param_q = ''ai'', param_after = None\<rparr> 3 (\<lparr>requests = 0, trace = []\<rparr> :: unit world)
     = (Inl (HTTPError 403),
        \<lparr>requests = 3,
         trace = [HttpGet \<lparr>param_q = ''ai'', param_after = None\<rparr>, Backoff 1,
                  HttpGet \<lparr>param_q = ''ai'', param_after = None\<rparr>, Backoff 2,
                  HttpGet \<lparr>param_q = ''ai'', param_after = None\<rparr>]\<rparr>)
   \<and> fetch_loop (\<lambda>n ps. Inr \<lparr>status_code = 404, retry_after = None, json_body = None\<rparr>)
        \<lparr>param_q = ''ai'', param_after = None\<rparr> 3 [0, 1, 2] (\<lparr>requests = 0, trace = []\<rparr> :: unit world)
     = (Inl (HTTPError 404),
        \<lparr>requests = 1, trace = [HttpGet \<lparr>param_q = ''ai'', param_after = None\<rparr>]\<rparr>)"
proof -
  have r: "py_range 2 = [0, 1]" by code_simp
  have a: "fetch_json (\<lambda>n ps. Inr \<lparr>status_code = 403, retry_after = None, json_body = None\<rparr>)
      \<lparr>param_q = ''ai'', param_after = None\<rparr> 3 (\<lparr>requests = 0, trace = []\<rparr> :: unit world)
     = (Inl (HTTPError 403),
        \<lparr>requests = 3,
         trace = [HttpGet \<lparr>param_q = ''ai'', param_after = None\<rparr>, Backoff 1,
                  HttpGet \<lparr>param_q = ''ai'', param_after = None\<rparr>, Backoff 2,
                  HttpGet \<lparr>param_q = ''ai'', param_after = None\<rparr>]\<rparr>)"
    using forbidden_and_hard_failures [of "[\<lparr>status_code = 403, retry_after = None, json_body = None\<rparr>,
        \<lparr>status_code = 403, retry_after = None, json_body = None\<rparr>,
        \<lparr>status_code = 403, retry_after = None, json_body = None\<rparr>]" 3
      "\<lambda>n ps. Inr \<lparr>status_code = 403, retry_after = None, json_body = None\<rparr>"
      "\<lparr>param_q = ''ai'', param_after = None\<rparr>" "\<lparr>requests = 0, trace = []\<rparr> :: unit world"]
    by (simp add: served_def r)
  have b: "fetch_loop (\<lambda>n ps. Inr \<lparr>status_code = 404, retry_after = None, json_body = None\<rparr>)
        \<lparr>param_q = ''ai'', param_after = None\<rparr> 3 [0, 1, 2] (\<lparr>requests = 0, trace = []\<rparr> :: unit world)
     = (Inl (HTTPError 404),
        \<lparr>requests = 1, trace = [HttpGet \<lparr>param_q = ''ai'', param_after = None\<rparr>]\<rparr>)"
    using forbidden_and_hard_failures [of "[]" 3
      "\<lambda>n ps. Inr \<lparr>status_code = 404, retry_after = None, json_body = None\<rparr>"
      "\<lparr>param_q = ''ai'', param_after = None\<rparr>" "\<lparr>requests = 0, trace = []\<rparr> :: unit world"
      0 "\<lparr>status_code = 404, retry_after = None, json_body = None\<rparr>" "[1, 2]"]
    by (simp add: after_request_def)
  from a b show ?thesis by blast
qed

section \<open>Pagination\<close>

lemma page_events_append: "page_events (xs @ ys) = page_events xs @ page_events ys"
  by (simp add: page_events_def)

lemma pages_append: "pages (xs @ ys) = pages xs + pages ys"
  by (simp add: pages_def)

lemma fetch_loop_events:
  "fetch_loop tr ps max_retries attempts w = (res, w') \<Longrightarrow>
   \<exists>evs. trace w' = trace w @ evs \<and> page_events evs = [] \<and> pages evs = 0"
proof (induction attempts arbitrary: w)
  case Nil
  then show ?case by (auto simp: page_events_def pages_def)
next
  case (Cons a attempts)
  obtain g w1 where g: "http_get tr ps w = (g, w1)" by (cases "http_get tr ps w")
  then have w1: "trace w1 = trace w @ [HttpGet ps]"
    by (auto simp: http_get_def emit_def)
  have base: "\<exists>evs. trace w1 = trace w @ evs \<and> page_events evs = [] \<and> pages evs = 0"
    using w1 by (simp add: page_events_def pages_def is_page_event_def)
  have step: "\<exists>evs. trace w' = trace w @ evs \<and> page_events evs = [] \<and> pages evs = 0"
    if "fetch_loop tr ps max_retries attempts (emit (Backoff n) w1) = (res, w')" for n
  proof -
    from Cons.IH [OF that] obtain evs where
      "trace w' = trace (emit (Backoff n) w1) @ evs" "page_events evs = []" "pages evs = 0" by blast
    then have "trace w' = trace w @ ([HttpGet ps, Backoff n] @ evs)"
      "page_events ([HttpGet ps, Backoff n] @ evs) = []" "pages ([HttpGet ps, Backoff n] @ evs) = 0"
      using w1 by (simp_all add: emit_def page_events_def pages_def is_page_event_def)
    then show ?thesis by blast
  qed
  show ?case
  proof (cases g)
    case (Inl e)
    with Cons.prems g base show ?thesis by auto
  next
    case (Inr r)
    with Cons.prems g base step show ?thesis
      by (auto split: if_splits sum.splits option.splits)
  qed
qed

lemma fetch_json_events:
  "fetch_json tr ps max_retries w = (res, w') \<Longrightarrow>
   \<exists>evs. trace w' = trace w @ evs \<and> page_events evs = [] \<and> pages evs = 0"
  unfolding fetch_json_def by (rule fetch_loop_events)

lemma append_children_bound:
  "append_children cs limit_total all_rows = Inr rows \<Longrightarrow> int (length all_rows) < limit_total \<Longrightarrow>
   int (length rows) \<le> limit_total"
proof (induction cs arbitrary: all_rows)
  case Nil
  then show ?case by simp
next
  case (Cons c cs)
  from Cons.prems obtain p where p: "child_post c = Inr p"
    by (cases "child_post c") simp_all
  from Cons.prems p obtain r where r: "to_schema p = Inr r"
    by (cases "to_schema p") simp_all
  show ?case
  proof (cases "limit_total \<le> int (length (all_rows @ [r]))")
    case True
    with Cons.prems p r have "rows = all_rows @ [r]" by simp
    then show ?thesis using Cons.prems(2) by simp
  next
    case False
    with Cons.prems p r have "append_children cs limit_total (all_rows @ [r]) = Inr rows" by simp
    from Cons.IH [OF this] False show ?thesis by simp
  qed
qed

text \<open>What one run of the loop body does to the trace, by its outcome.\<close>

lemma page_iteration_cases:
  assumes "page_iteration tr query limit_total sleep_s all_rows aft w = (it, w')"
    and guard: "int (length all_rows) < limit_total"
  shows "\<exists>evs. trace w' = trace w @ evs \<and>
     (case it of
        Stop (Inl e) \<Rightarrow> pages evs \<le> 1
      | Stop (Inr rows) \<Rightarrow>
          (\<exists>d. page_events evs = [Returned d] \<and> pages evs = 1
             \<and> (page_items d = [] \<or> page_cursor d = None \<or> page_cursor d = Some [])
             \<and> int (length rows) \<le> limit_total)
      | Again rows a \<Rightarrow>
          (\<exists>d. page_events evs = [Returned d, Pause sleep_s] \<and> pages evs = 1
             \<and> page_items d \<noteq> [] \<and> truthy (page_cursor d)
             \<and> int (length rows) \<le> limit_total))"
proof -
  define ps where "ps = \<lparr>param_q = query, param_after = (if truthy aft then aft else None)\<rparr>"
  obtain res w1 where f: "fetch_json tr ps 6 w = (res, w1)" by (cases "fetch_json tr ps 6 w")
  from fetch_json_events [OF f] obtain evs1 where
    e1: "trace w1 = trace w @ evs1" "page_events evs1 = []" "pages evs1 = 0" by blast
  show ?thesis
  proof (cases res)
    case (Inl e)
    with assms f have "it = Stop (Inl e)" "w' = w1"
      by (simp_all add: page_iteration_def ps_def)
    with e1 show ?thesis by auto
  next
    case (Inr d)
    define w2 where "w2 = emit (Returned d) w1"
    have e2: "trace w2 = trace w @ (evs1 @ [Returned d])"
      "page_events (evs1 @ [Returned d]) = [Returned d]" "pages (evs1 @ [Returned d]) = 1"
      using e1 by (simp_all add: w2_def emit_def page_events_def pages_def is_page_event_def)
    have e3: "trace (emit (Pause sleep_s) w2) = trace w @ (evs1 @ [Returned d, Pause sleep_s])"
      "page_events (evs1 @ [Returned d, Pause sleep_s]) = [Returned d, Pause sleep_s]"
      "pages (evs1 @ [Returned d, Pause sleep_s]) = 1"
      using e1 by (simp_all add: w2_def emit_def page_events_def pages_def is_page_event_def)
    show ?thesis
    proof (cases "listing_of d")
      case (Inl e)
      with assms f Inr have "it = Stop (Inl e)" "w' = w2"
        by (simp_all add: page_iteration_def ps_def w2_def Let_def)
      with e2 show ?thesis by auto
    next
      case l: (Inr l)
      have items: "page_items d = (case get_or (children l) [] of None \<Rightarrow> [] | Some cs \<Rightarrow> cs)"
        and cursor: "page_cursor d = get (after l)"
        using l by (simp_all add: page_items_def page_cursor_def)
      show ?thesis
      proof (cases "page_items d = []")
        case True
        with assms f Inr l items have "it = Stop (Inr all_rows)" "w' = w2"
          by (auto simp: page_iteration_def ps_def w2_def Let_def split: option.splits)
        with e2 True guard show ?thesis by auto
      next
        case False
        then have ne: "(case get_or (children l) [] of None \<Rightarrow> False | Some cs \<Rightarrow> cs \<noteq> [])"
          using items by (auto split: option.splits)
        show ?thesis
        proof (cases "append_children (page_items d) limit_total all_rows")
          case (Inl e)
          with assms f Inr l items ne have "it = Stop (Inl e)" "w' = w2"
            by (simp_all add: page_iteration_def ps_def w2_def Let_def)
          with e2 show ?thesis by auto
        next
          case rows: (Inr rows)
          note bound = append_children_bound [OF rows guard]
          show ?thesis
          proof (cases "truthy (page_cursor d)")
            case True
            with assms f Inr l items cursor ne rows
            have "it = Again rows (page_cursor d)" "w' = emit (Pause sleep_s) w2"
              by (simp_all add: page_iteration_def ps_def w2_def Let_def)
            with e3 True False bound show ?thesis by auto
          next
            case nc: False
            with assms f Inr l items cursor ne rows
            have "it = Stop (Inr rows)" "w' = w2"
              by (simp_all add: page_iteration_def ps_def w2_def Let_def)
            moreover from nc have "page_cursor d = None \<or> page_cursor d = Some []"
              by (auto simp: truthy_def split: option.splits)
            ultimately show ?thesis using e2 bound by auto
          qed
        qed
      qed
    qed
  qed
qed

lemma search_loop_trace:
  "search_loop tr query limit_total sleep_s all_rows aft w = (res, w') \<Longrightarrow>
   \<exists>evs. trace w' = trace w @ evs
      \<and> int (pages evs) \<le> max 0 (limit_total - int (length all_rows))
      \<and> (\<forall>rows. res = Inr rows \<longrightarrow>
            int (length rows) \<le> max (int (length all_rows)) limit_total
          \<and> paced sleep_s (page_events evs)
          \<and> (page_events evs = [] \<longrightarrow> rows = all_rows \<and> limit_total \<le> int (length all_rows))
          \<and> (page_events evs \<noteq> [] \<and> last (page_events evs) = Pause sleep_s \<longrightarrow>
                limit_total \<le> int (length rows)))"
proof (induction tr query limit_total sleep_s all_rows aft w arbitrary: res w' rule: search_loop.induct)
  case (1 tr query limit_total sleep_s all_rows aft w)
  show ?case
  proof (cases "int (length all_rows) < limit_total")
    case False
    with "1.prems" have "res = Inr all_rows" "w' = w"
      by (simp_all add: search_loop.simps)
    with False show ?thesis
      by (intro exI [of _ "[]"]) (simp add: pages_def page_events_def)
  next
    case guard: True
    obtain it w1 where it: "page_iteration tr query limit_total sleep_s all_rows aft w = (it, w1)"
      by (cases "page_iteration tr query limit_total sleep_s all_rows aft w")
    from page_iteration_cases [OF it guard] obtain evs1 where t1: "trace w1 = trace w @ evs1"
      and c1: "(case it of
        Stop (Inl e) \<Rightarrow> pages evs1 \<le> 1
      | Stop (Inr rows) \<Rightarrow>
          (\<exists>d. page_events evs1 = [Returned d] \<and> pages evs1 = 1
             \<and> (page_items d = [] \<or> page_cursor d = None \<or> page_cursor d = Some [])
             \<and> int (length rows) \<le> limit_total)
      | Again rows a \<Rightarrow>
          (\<exists>d. page_events evs1 = [Returned d, Pause sleep_s] \<and> pages evs1 = 1
             \<and> page_items d \<noteq> [] \<and> truthy (page_cursor d)
             \<and> int (length rows) \<le> limit_total))" by blast
    show ?thesis
    proof (cases it)
      case (Stop r)
      with "1.prems" guard it have r: "res = r" "w' = w1"
        by (simp_all add: search_loop.simps)
      show ?thesis
      proof (cases r)
        case (Inl e)
        with c1 Stop r t1 guard show ?thesis
          by (intro exI [of _ evs1]) auto
      next
        case (Inr rows)
        with c1 Stop obtain d where d: "page_events evs1 = [Returned d]" "pages evs1 = 1"
          "page_items d = [] \<or> page_cursor d = None \<or> page_cursor d = Some []"
          "int (length rows) \<le> limit_total" by auto
        with Inr r t1 guard show ?thesis
          by (intro exI [of _ evs1]) auto
      qed
    next
      case (Again rows a)
      with "1.prems" guard it have rec: "search_loop tr query limit_total sleep_s rows a w1 = (res, w')"
        by (simp add: search_loop.simps)
      from c1 Again obtain d where d: "page_events evs1 = [Returned d, Pause sleep_s]" "pages evs1 = 1"
        "page_items d \<noteq> []" "truthy (page_cursor d)" "int (length rows) \<le> limit_total" by auto
      from it Again have "page_iteration tr query limit_total sleep_s all_rows aft w = (Again rows a, w1)"
        by simp
      then have grows: "length all_rows < length rows"
        by (rule page_iteration_grows)
      from "1.IH" [OF guard it [symmetric] Again rec] obtain evs2 where
        t2: "trace w' = trace w1 @ evs2"
        and p2: "int (pages evs2) \<le> max 0 (limit_total - int (length rows))"
        and r2: "\<forall>rs. res = Inr rs \<longrightarrow>
            int (length rs) \<le> max (int (length rows)) limit_total
          \<and> paced sleep_s (page_events evs2)
          \<and> (page_events evs2 = [] \<longrightarrow> rs = rows \<and> limit_total \<le> int (length rows))
          \<and> (page_events evs2 \<noteq> [] \<and> last (page_events evs2) = Pause sleep_s \<longrightarrow>
                limit_total \<le> int (length rs))" by blast
      have tr: "trace w' = trace w @ (evs1 @ evs2)" using t1 t2 by simp
      have pg: "int (pages (evs1 @ evs2)) \<le> max 0 (limit_total - int (length all_rows))"
        using p2 d(2) grows guard by (simp add: pages_append)
      have pe: "page_events (evs1 @ evs2) = Returned d # Pause sleep_s # page_events evs2"
        using d(1) by (simp add: page_events_append)
      have "int (length rs) \<le> max (int (length all_rows)) limit_total
          \<and> paced sleep_s (page_events (evs1 @ evs2))
          \<and> (page_events (evs1 @ evs2) = [] \<longrightarrow> rs = all_rows \<and> limit_total \<le> int (length all_rows))
          \<and> (page_events (evs1 @ evs2) \<noteq> [] \<and> last (page_events (evs1 @ evs2)) = Pause sleep_s \<longrightarrow>
                limit_total \<le> int (length rs))" if rs: "res = Inr rs" for rs
      proof -
        from r2 rs have a: "int (length rs) \<le> max (int (length rows)) limit_total"
          and b: "paced sleep_s (page_events evs2)"
          and c: "page_events evs2 = [] \<longrightarrow> rs = rows \<and> limit_total \<le> int (length rows)"
          and e: "page_events evs2 \<noteq> [] \<and> last (page_events evs2) = Pause sleep_s \<longrightarrow>
                limit_total \<le> int (length rs)" by blast+
        have l: "last (page_events (evs1 @ evs2)) = Pause sleep_s \<longrightarrow> limit_total \<le> int (length rs)"
          using c e unfolding pe by (cases "page_events evs2 = []") simp_all
        from a d(5) guard have "int (length rs) \<le> max (int (length all_rows)) limit_total" by simp
        moreover have "paced sleep_s (page_events (evs1 @ evs2))"
          unfolding pe using b d(3) d(4) by simp
        ultimately show ?thesis using l unfolding pe by simp
      qed
      with tr pg show ?thesis by (intro exI [of _ "evs1 @ evs2"]) blast
    qed
  qed
qed

lemma to_schema_t3_a: "to_schema (empty_post\<lparr>p_name := Val ''t3_a''\<rparr>) = Inr (blank_row\<lparr>post_id := Some ''t3_a''\<rparr>)"
  by code_simp

lemma search_one_item_with_cursor:
  "search_reddit (always (ok (item_page (Val ''t3_a'')))) ''ai'' 1 () start
     = (Inr [blank_row\<lparr>post_id := Some ''t3_a''\<rparr>],
        \<lparr>requests = 1,
         trace = [HttpGet \<lparr>param_q = ''ai'', param_after = None\<rparr>,
                  Returned (item_page (Val ''t3_a'')), Pause ()]\<rparr>)"
proof -
  have r: "py_range 6 = [0, 1, 2, 3, 4, 5]" by code_simp
  have f: "fetch_json (always (ok (item_page (Val ''t3_a'')))) \<lparr>param_q = ''ai'', param_after = None\<rparr> 6 start
      = (Inr (item_page (Val ''t3_a'')), \<lparr>requests = 1, trace = [HttpGet \<lparr>param_q = ''ai'', param_after = None\<rparr>]\<rparr>)"
    unfolding fetch_json_def r
    by (simp add: http_get_def emit_def raise_for_status_def always_def ok_def start_def)
  have p: "page_iteration (always (ok (item_page (Val ''t3_a'')))) ''ai'' 1 () [] None start
      = (Again [blank_row\<lparr>post_id := Some ''t3_a''\<rparr>] (Some ''t3_a''),
         \<lparr>requests = 1,
          trace = [HttpGet \<lparr>param_q = ''ai'', param_after = None\<rparr>,
                   Returned (item_page (Val ''t3_a'')), Pause ()]\<rparr>)"
    unfolding page_iteration_def
    by (simp add: truthy_def f)
       (simp add: listing_of_def item_page_def get_or_def get_def child_post_def
          to_schema_t3_a emit_def Let_def truthy_def)
  show ?thesis
    unfolding search_reddit_def
    by (subst search_loop.simps, simp add: p, subst search_loop.simps, simp)
qed

lemma search_loop_page:
  assumes guard: "int (length all_rows) < limit_total"
    and f: "fetch_json tr \<lparr>param_q = query, param_after = (if truthy aft then aft else None)\<rparr> 6 w = (Inr d, w1)"
    and l: "listing_of d = Inr l"
  shows "search_loop tr query limit_total sleep_s all_rows aft w =
     (if page_items d = [] then (Inr all_rows, emit (Returned d) w1)
      else (case append_children (page_items d) limit_total all_rows of
              Inl e \<Rightarrow> (Inl e, emit (Returned d) w1)
            | Inr rows \<Rightarrow>
                if truthy (page_cursor d)
                then search_loop tr query limit_total sleep_s rows (page_cursor d)
                       (emit (Pause sleep_s) (emit (Returned d) w1))
                else (Inr rows, emit (Returned d) w1)))"
proof -
  have items: "page_items d = (case get_or (children l) [] of None \<Rightarrow> [] | Some cs \<Rightarrow> cs)"
    and cursor: "page_cursor d = get (after l)"
    using l by (simp_all add: page_items_def page_cursor_def)
  have ne: "(case get_or (children l) [] of None \<Rightarrow> False | Some cs \<Rightarrow> cs \<noteq> []) \<longleftrightarrow> page_items d \<noteq> []"
    using items by (auto split: option.splits)
  have "page_iteration tr query limit_total sleep_s all_rows aft w =
     (if page_items d = [] then (Stop (Inr all_rows), emit (Returned d) w1)
      else (case append_children (page_items d) limit_total all_rows of
              Inl e \<Rightarrow> (Stop (Inl e), emit (Returned d) w1)
            | Inr rows \<Rightarrow>
                if truthy (page_cursor d)
                then (Again rows (page_cursor d), emit (Pause sleep_s) (emit (Returned d) w1))
                else (Stop (Inr rows), emit (Returned d) w1)))"
    unfolding page_iteration_def f
    by (simp add: l Let_def ne items [symmetric] cursor [symmetric] split: sum.splits)
  then show ?thesis
    using guard by (subst search_loop.simps) (simp split: sum.splits)
qed

text \<open>
  Claim C3. For every target and every transport, \<open>search_reddit\<close> returns after at most
  \<open>limit_total\<close> pages, whatever cursors the pages carry, and the list it returns has at
  most \<open>limit_total\<close> items (none when the target is not positive), so it never exceeds
  the target. The loop ends without a further request once the number of collected
  items has reached the target, when a page has no items, and when a page has no cursor.
\<close>

theorem pagination_terminates:
  "(search_reddit tr query limit_total sleep_s w = (res, w') \<longrightarrow>
      (\<exists>evs. trace w' = trace w @ evs \<and> int (pages evs) \<le> max 0 limit_total
         \<and> (\<forall>rows. res = Inr rows \<longrightarrow> int (length rows) \<le> max 0 limit_total)))
   \<and> (limit_total \<le> int (length all_rows) \<longrightarrow>
        search_loop tr query limit_total sleep_s all_rows aft w = (Inr all_rows, w))
   \<and> (int (length all_rows) < limit_total
        \<and> fetch_json tr \<lparr>param_q = query, param_after = (if truthy aft then aft else None)\<rparr> 6 w = (Inr d, w1)
        \<and> listing_of d = Inr l \<and> page_items d = [] \<longrightarrow>
        search_loop tr query limit_total sleep_s all_rows aft w = (Inr all_rows, emit (Returned d) w1))
   \<and> (int (length all_rows) < limit_total
        \<and> fetch_json tr \<lparr>param_q = query, param_after = (if truthy aft then aft else None)\<rparr> 6 w = (Inr d, w1)
        \<and> listing_of d = Inr l \<and> page_items d \<noteq> []
        \<and> append_children (page_items d) limit_total all_rows = Inr rows'
        \<and> (page_cursor d = None \<or> page_cursor d = Some []) \<longrightarrow>
        search_loop tr query limit_total sleep_s all_rows aft w = (Inr rows', emit (Returned d) w1))"
proof -
  have a: "\<exists>evs. trace w' = trace w @ evs \<and> int (pages evs) \<le> max 0 limit_total
         \<and> (\<forall>rows. res = Inr rows \<longrightarrow> int (length rows) \<le> max 0 limit_total)"
    if "search_reddit tr query limit_total sleep_s w = (res, w')"
  proof -
    from search_loop_trace [OF that [unfolded search_reddit_def]] obtain evs where
      "trace w' = trace w @ evs" "int (pages evs) \<le> max 0 (limit_total - int (length ([]::row list)))"
      "\<forall>rows. res = Inr rows \<longrightarrow> int (length rows) \<le> max (int (length ([]::row list))) limit_total"
      by blast
    then show ?thesis by (intro exI [of _ evs]) simp
  qed
  have b: "search_loop tr query limit_total sleep_s all_rows aft w = (Inr all_rows, w)"
    if "limit_total \<le> int (length all_rows)"
    using that by (subst search_loop.simps) simp
  have c: "search_loop tr query limit_total sleep_s all_rows aft w = (Inr all_rows, emit (Returned d) w1)"
    if "int (length all_rows) < limit_total
        \<and> fetch_json tr \<lparr>param_q = query, param_after = (if truthy aft then aft else None)\<rparr> 6 w = (Inr d, w1)
        \<and> listing_of d = Inr l \<and> page_items d = []"
    using that search_loop_page [of all_rows limit_total tr query aft w d w1 l sleep_s] by simp
  have e: "search_loop tr query limit_total sleep_s all_rows aft w = (Inr rows', emit (Returned d) w1)"
    if "int (length all_rows) < limit_total
        \<and> fetch_json tr \<lparr>param_q = query, param_after = (if truthy aft then aft else None)\<rparr> 6 w = (Inr d, w1)
        \<and> listing_of d = Inr l \<and> page_items d \<noteq> []
        \<and> append_children (page_items d) limit_total all_rows = Inr rows'
        \<and> (page_cursor d = None \<or> page_cursor d = Some [])"
    using that search_loop_page [of all_rows limit_total tr query aft w d w1 l sleep_s]
    by (auto simp: truthy_def)
  from a b c e show ?thesis by blast
qed

theorem pagination_terminates_witness:
  "int (pages [HttpGet \<lparr>param_q = ''ai'', param_after = None\<rparr>,
               Returned (item_page (Val ''t3_a'')), Pause ()]) \<le> 1
   \<and> int (length [blank_row\<lparr>post_id := Some ''t3_a''\<rparr>]) \<le> 1
   \<and> search_loop (always (ok (item_page (Val ''t3_a'')))) ''ai'' 1 ()
        [blank_row\<lparr>post_id := Some ''t3_a''\<rparr>] (Some ''t3_a'') start
      = (Inr [blank_row\<lparr>post_id := Some ''t3_a''\<rparr>], start)"
proof -
  from pagination_terminates [of "always (ok (item_page (Val ''t3_a'')))" "''ai''" 1 "()" start
      "Inr [blank_row\<lparr>post_id := Some ''t3_a''\<rparr>]"
      "\<lparr>requests = 1,
         trace = [HttpGet \<lparr>param_q = ''ai'', param_after = None\<rparr>,
                  Returned (item_page (Val ''t3_a'')), Pause ()]\<rparr>"
       "[blank_row\<lparr>post_id := Some ''t3_a''\<rparr>]" "Some ''t3_a''"]
    search_one_item_with_cursor
  show ?thesis by (simp add: start_def)
qed

lemma search_two_pages:
  "search_reddit (then_last (ok (item_page (Val ''t3_a''))) (ok (item_page Null))) ''ai'' 5 () start
     = (Inr [blank_row\<lparr>post_id := Some ''t3_a''\<rparr>, blank_row\<lparr>post_id := Some ''t3_a''\<rparr>],
        \<lparr>requests = 2,
         trace = [HttpGet \<lparr>param_q = ''ai'', param_after = None\<rparr>,
                  Returned (item_page (Val ''t3_a'')), Pause (),
                  HttpGet \<lparr>param_q = ''ai'', param_after = Some ''t3_a''\<rparr>,
                  Returned (item_page Null)]\<rparr>)"
proof -
  have r: "py_range 6 = [0, 1, 2, 3, 4, 5]" by code_simp
  have f1: "fetch_json (then_last (ok (item_page (Val ''t3_a''))) (ok (item_page Null)))
      \<lparr>param_q = ''ai'', param_after = (if truthy None then None else None)\<rparr> 6 start
      = (Inr (item_page (Val ''t3_a'')), \<lparr>requests = 1, trace = [HttpGet \<lparr>param_q = ''ai'', param_after = None\<rparr>]\<rparr>)"
    unfolding fetch_json_def r
    by (simp add: http_get_def emit_def raise_for_status_def then_last_def ok_def start_def truthy_def)
  have l1: "listing_of (item_page a) = Inr \<lparr>children = Val [\<lparr>child_data = Val (empty_post\<lparr>p_name := Val ''t3_a''\<rparr>)\<rparr>], after = a\<rparr>" for a
    by (simp add: listing_of_def item_page_def)
  have i1: "page_items (item_page a) = [\<lparr>child_data = Val (empty_post\<lparr>p_name := Val ''t3_a''\<rparr>)\<rparr>]" for a
    by (simp add: page_items_def l1 get_or_def)
  have c1: "page_cursor (item_page a) = get a" for a
    by (simp add: page_cursor_def l1)
  have a0: "append_children [\<lparr>child_data = Val (empty_post\<lparr>p_name := Val ''t3_a''\<rparr>)\<rparr>] 5 []
      = Inr [blank_row\<lparr>post_id := Some ''t3_a''\<rparr>]"
    by (simp add: child_post_def to_schema_t3_a)
  have a1: "append_children [\<lparr>child_data = Val (empty_post\<lparr>p_name := Val ''t3_a''\<rparr>)\<rparr>] 5
        [blank_row\<lparr>post_id := Some ''t3_a''\<rparr>]
      = Inr [blank_row\<lparr>post_id := Some ''t3_a''\<rparr>, blank_row\<lparr>post_id := Some ''t3_a''\<rparr>]"
    by (simp add: child_post_def to_schema_t3_a)
  have f2: "fetch_json (then_last (ok (item_page (Val ''t3_a''))) (ok (item_page Null)))
      \<lparr>param_q = ''ai'', param_after = (if truthy (Some ''t3_a'') then Some ''t3_a'' else None)\<rparr> 6
      (emit (Pause ()) (emit (Returned (item_page (Val ''t3_a'')))
          \<lparr>requests = 1, trace = [HttpGet \<lparr>param_q = ''ai'', param_after = None\<rparr>]\<rparr>))
      = (Inr (item_page Null),
         \<lparr>requests = 2,
          trace = [HttpGet \<lparr>param_q = ''ai'', param_after = None\<rparr>,
                   Returned (item_page (Val ''t3_a'')), Pause (),
                   HttpGet \<lparr>param_q = ''ai'', param_after = Some ''t3_a''\<rparr>]\<rparr>)"
    unfolding fetch_json_def r
    by (simp add: http_get_def emit_def raise_for_status_def then_last_def ok_def truthy_def)
  have s1: "search_loop (then_last (ok (item_page (Val ''t3_a''))) (ok (item_page Null))) ''ai'' 5 () [] None start
      = search_loop (then_last (ok (item_page (Val ''t3_a''))) (ok (item_page Null))) ''ai'' 5 ()
          [blank_row\<lparr>post_id := Some ''t3_a''\<rparr>] (Some ''t3_a'')
          (emit (Pause ()) (emit (Returned (item_page (Val ''t3_a'')))
             \<lparr>requests = 1, trace = [HttpGet \<lparr>param_q = ''ai'', param_after = None\<rparr>]\<rparr>))"
    using search_loop_page [where all_rows = "[]" and limit_total = 5 and aft = None and sleep_s = "()", OF _ f1 l1]
    by (simp add: i1 c1 a0 get_def truthy_def del: append_children.simps)
  have s2: "search_loop (then_last (ok (item_page (Val ''t3_a''))) (ok (item_page Null))) ''ai'' 5 ()
          [blank_row\<lparr>post_id := Some ''t3_a''\<rparr>] (Some ''t3_a'')
          (emit (Pause ()) (emit (Returned (item_page (Val ''t3_a'')))
             \<lparr>requests = 1, trace = [HttpGet \<lparr>param_q = ''ai'', param_after = None\<rparr>]\<rparr>))
      = (Inr [blank_row\<lparr>post_id := Some ''t3_a''\<rparr>, blank_row\<lparr>post_id := Some ''t3_a''\<rparr>],
         emit (Returned (item_page Null))
          \<lparr>requests = 2,
           trace = [HttpGet \<lparr>param_q = ''ai'', param_after = None\<rparr>,
                    Returned (item_page (Val ''t3_a'')), Pause (),
                    HttpGet \<lparr>param_q = ''ai'', param_after = Some ''t3_a''\<rparr>]\<rparr>)"
    using search_loop_page [where all_rows = "[blank_row\<lparr>post_id := Some ''t3_a''\<rparr>]" and limit_total = 5
        and aft = "Some ''t3_a''" and sleep_s = "()", OF _ f2 l1]
    by (simp add: i1 c1 a1 get_def truthy_def del: append_children.simps)
  show ?thesis
    unfolding search_reddit_def s1 s2 by (simp add: emit_def)
qed

lemma search_page_without_items:
  "search_reddit (always (ok \<lparr>data = Val \<lparr>children = Val [], after = Val ''t3_a''\<rparr>\<rparr>)) ''ai'' 5 () start
     = (Inr [],
        \<lparr>requests = 1,
         trace = [HttpGet \<lparr>param_q = ''ai'', param_after = None\<rparr>,
                  Returned \<lparr>data = Val \<lparr>children = Val [], after = Val ''t3_a''\<rparr>\<rparr>]\<rparr>)"
proof -
  have r: "py_range 6 = [0, 1, 2, 3, 4, 5]" by code_simp
  have f: "fetch_json (always (ok \<lparr>data = Val \<lparr>children = Val [], after = Val ''t3_a''\<rparr>\<rparr>))
      \<lparr>param_q = ''ai'', param_after = (if truthy None then None else None)\<rparr> 6 start
      = (Inr \<lparr>data = Val \<lparr>children = Val [], after = Val ''t3_a''\<rparr>\<rparr>,
         \<lparr>requests = 1, trace = [HttpGet \<lparr>param_q = ''ai'', param_after = None\<rparr>]\<rparr>)"
    unfolding fetch_json_def r
    by (simp add: http_get_def emit_def raise_for_status_def always_def ok_def start_def truthy_def)
  have l: "listing_of \<lparr>data = Val \<lparr>children = Val [], after = Val ''t3_a''\<rparr>\<rparr>
      = Inr \<lparr>children = Val [], after = Val ''t3_a''\<rparr>"
    by (simp add: listing_of_def)
  have i: "page_items \<lparr>data = Val \<lparr>children = Val [], after = Val ''t3_a''\<rparr>\<rparr> = []"
    by (simp add: page_items_def l get_or_def)
  show ?thesis
    unfolding search_reddit_def
    using search_loop_page [where all_rows = "[]" and limit_total = 5 and aft = None and sleep_s = "()", OF _ f l]
    by (simp add: i emit_def)
qed

lemma pause_follows_continuing_pages:
  "search_reddit tr query limit_total sleep_s w = (Inr rows, w') \<longrightarrow>
     (\<exists>evs. trace w' = trace w @ evs
        \<and> paced sleep_s (page_events evs)
        \<and> (page_events evs \<noteq> [] \<and> last (page_events evs) = Pause sleep_s \<longrightarrow>
              limit_total \<le> int (length rows)))"
proof
  assume "search_reddit tr query limit_total sleep_s w = (Inr rows, w')"
  from search_loop_trace [OF this [unfolded search_reddit_def]] obtain evs where
    "trace w' = trace w @ evs" "paced sleep_s (page_events evs)"
    "page_events evs \<noteq> [] \<and> last (page_events evs) = Pause sleep_s \<longrightarrow> limit_total \<le> int (length rows)"
    by blast
  then show "\<exists>evs. trace w' = trace w @ evs
        \<and> paced sleep_s (page_events evs)
        \<and> (page_events evs \<noteq> [] \<and> last (page_events evs) = Pause sleep_s \<longrightarrow>
              limit_total \<le> int (length rows))" by blast
qed

text \<open>
  Claim C5 says that no delay follows the page on which the pagination loop ends,
  whichever of the three conditions ends it. The code does so on two of the three exits
  only. \<open>if not children: break\<close> and \<open>if not after: break\<close> leave the \<open>while\<close> loop before
  \<open>time.sleep(sleep_s)\<close>: a page without items ends the run with no sleep after it, and so
  does a page without a cursor. The exit at the target is the \<open>break\<close> inside the \<open>for\<close>
  loop, which leaves the \<open>for\<close> loop only: the cursor is then read, \<open>time.sleep(sleep_s)\<close>
  runs, and the \<open>while\<close> condition ends the loop after the sleep. With the target 1 and a
  first page that has one item and a cursor, the run is one request, the page and a
  sleep, and the sleep is the last event of the run.
\<close>

theorem delay_after_target_page:
  "search_reddit (always (ok (item_page (Val ''t3_a'')))) ''ai'' 1 () start
     = (Inr [blank_row\<lparr>post_id := Some ''t3_a''\<rparr>],
        \<lparr>requests = 1,
         trace = [HttpGet \<lparr>param_q = ''ai'', param_after = None\<rparr>,
                  Returned (item_page (Val ''t3_a'')), Pause ()]\<rparr>)
   \<and> last (trace (snd (search_reddit (always (ok (item_page (Val ''t3_a'')))) ''ai'' 1 () start))) = Pause ()
   \<and> search_reddit (then_last (ok (item_page (Val ''t3_a''))) (ok (item_page Null))) ''ai'' 5 () start
     = (Inr [blank_row\<lparr>post_id := Some ''t3_a''\<rparr>, blank_row\<lparr>post_id := Some ''t3_a''\<rparr>],
        \<lparr>requests = 2,
         trace = [HttpGet \<lparr>param_q = ''ai'', param_after = None\<rparr>,
                  Returned (item_page (Val ''t3_a'')), Pause (),
                  HttpGet \<lparr>param_q = ''ai'', param_after = Some ''t3_a''\<rparr>,
                  Returned (item_page Null)]\<rparr>)
   \<and> search_reddit (always (ok \<lparr>data = Val \<lparr>children = Val [], after = Val ''t3_a''\<rparr>\<rparr>)) ''ai'' 5 () start
     = (Inr [],
        \<lparr>requests = 1,
         trace = [HttpGet \<lparr>param_q = ''ai'', param_after = None\<rparr>,
                  Returned \<lparr>data = Val \<lparr>children = Val [], after = Val ''t3_a''\<rparr>\<rparr>]\<rparr>)"
proof -
  have a: "last (trace (snd (search_reddit (always (ok (item_page (Val ''t3_a'')))) ''ai'' 1 () start))) = Pause ()"
    by (simp add: search_one_item_with_cursor)
  show ?thesis
    by (intro conjI search_one_item_with_cursor a search_two_pages search_page_without_items)
qed

section \<open>The sinks\<close>

subsection \<open>Lines of the JSON file\<close>


















subsection \<open>Reading the CSV file back\<close>











subsection \<open>Reading the JSON file back\<close>




















subsection \<open>What the two files hold\<close>









end
